theory Spec2Isabelle
  imports Complex_Main
begin

section \<open>Crank-Nicolson heat flow (heatflow.ipynb): the numerical core\<close>

text \<open>
  The notebook is a sequence of cells over module-level variables. Each cell becomes a
  HOL function of the variables it reads, and every exception the cell can raise is a
  value \<open>Inl e\<close> of the result type. Python's \<open>int\<close> is \<open>int\<close>; a NumPy
  float array is a \<open>real list\<close> (rounding is not modelled: arithmetic is exact); a
  two-dimensional \<open>(N, N)\<close> array is its row-major flattening, cell \<open>(i, j)\<close> at index
  \<open>i * N + j\<close>.
\<close>

subsection \<open>Errors and sequencing\<close>

datatype error = ValueError | IndexError

definition bindE :: "error + 'a \<Rightarrow> ('a \<Rightarrow> error + 'b) \<Rightarrow> error + 'b" where
  "bindE r f = (case r of Inl e \<Rightarrow> Inl e | Inr x \<Rightarrow> f x)"

text \<open>A \<open>for\<close> loop over a list of indices; the first exception leaves the loop.\<close>

fun foldE :: "('s \<Rightarrow> 'i \<Rightarrow> error + 's) \<Rightarrow> 's \<Rightarrow> 'i list \<Rightarrow> error + 's" where
  "foldE f s [] = Inr s"
| "foldE f s (i # is) = bindE (f s i) (\<lambda>s'. foldE f s' is)"

fun mapE :: "('a \<Rightarrow> error + 'b) \<Rightarrow> 'a list \<Rightarrow> error + 'b list" where
  "mapE f [] = Inr []"
| "mapE f (x # xs) = bindE (f x) (\<lambda>y. bindE (mapE f xs) (\<lambda>ys. Inr (y # ys)))"

text \<open>\<open>range(a, b)\<close> for \<open>a \<ge> 0\<close>.\<close>

definition range_py :: "nat \<Rightarrow> int \<Rightarrow> int list" where
  "range_py a b = map int [a..<nat b]"

subsection \<open>NumPy: allocation, indexing, slices\<close>

text \<open>\<open>np.zeros(n)\<close>, \<open>np.ones(n)\<close>: a negative dimension raises ValueError.\<close>

definition np_full :: "int \<Rightarrow> real \<Rightarrow> error + real list" where
  "np_full n c = (if n < 0 then Inl ValueError else Inr (replicate (nat n) c))"

definition np_zeros :: "int \<Rightarrow> error + real list" where
  "np_zeros n = np_full n 0"

definition np_ones :: "int \<Rightarrow> error + real list" where
  "np_ones n = np_full n 1"

text \<open>\<open>np.zeros((t, n))\<close>: \<open>t\<close> rows of \<open>n\<close> zeros.\<close>

definition np_zeros2 :: "int \<Rightarrow> int \<Rightarrow> error + real list list" where
  "np_zeros2 t n =
     (if t < 0 \<or> n < 0 then Inl ValueError
      else Inr (replicate (nat t) (replicate (nat n) 0)))"

text \<open>\<open>c * xs\<close> for a scalar \<open>c\<close>.\<close>

definition smul :: "real \<Rightarrow> real list \<Rightarrow> real list" where
  "smul c xs = map (\<lambda>x. c * x) xs"

text \<open>
  An index into an array of \<open>n\<close> cells: \<open>0 \<dots> n-1\<close> as it is, \<open>-n \<dots> -1\<close> counted
  from the end, anything else raises IndexError. \<open>xs[i]\<close> and \<open>xs[i] = v\<close> go through it.
\<close>

definition index_py :: "nat \<Rightarrow> int \<Rightarrow> error + nat" where
  "index_py n i =
     (if 0 \<le> i \<and> i < int n then Inr (nat i)
      else if - int n \<le> i \<and> i < 0 then Inr (nat (int n + i))
      else Inl IndexError)"

definition getitem :: "'a list \<Rightarrow> int \<Rightarrow> error + 'a" where
  "getitem xs i = bindE (index_py (length xs) i) (\<lambda>k. Inr (xs ! k))"

definition setitem :: "'a list \<Rightarrow> int \<Rightarrow> 'a \<Rightarrow> error + 'a list" where
  "setitem xs i v = bindE (index_py (length xs) i) (\<lambda>k. Inr (xs[k := v]))"

text \<open>\<open>rows[i] = v\<close> for a two-dimensional \<open>rows\<close>: \<open>v\<close> must have the row's length, or
  length one (it is then broadcast); otherwise ValueError.\<close>

definition setrow :: "real list list \<Rightarrow> int \<Rightarrow> real list \<Rightarrow> error + real list list" where
  "setrow rows i v =
     bindE (getitem rows i) (\<lambda>old.
       if length v = length old then setitem rows i v
       else if length v = 1 then setitem rows i (replicate (length old) (hd v))
       else Inl ValueError)"

text \<open>A slice bound, clipped to the array as Python does.\<close>

definition slice_bound :: "nat \<Rightarrow> int \<Rightarrow> nat" where
  "slice_bound n i = (if i < 0 then nat (max 0 (int n + i)) else min n (nat i))"

text \<open>\<open>xs[a:b] = c\<close> for a scalar \<open>c\<close>.\<close>

definition fill_slice :: "real list \<Rightarrow> int \<Rightarrow> int \<Rightarrow> real \<Rightarrow> real list" where
  "fill_slice xs a b c =
     map (\<lambda>k. if slice_bound (length xs) a \<le> k \<and> k < slice_bound (length xs) b then c else xs ! k)
       [0..<length xs]"

text \<open>\<open>xs[:-1]\<close> is \<open>butlast xs\<close>, and \<open>xs[1:-1]\<close> is \<open>butlast (tl xs)\<close> (both empty on
  an array too short).\<close>

text \<open>\<open>a.reshape((N, N))\<close>: the data is kept, the size must be \<open>N * N\<close>.\<close>

definition reshape :: "int \<Rightarrow> real list \<Rightarrow> error + real list" where
  "reshape N xs = (if N < 0 \<or> int (length xs) \<noteq> N * N then Inl ValueError else Inr xs)"

subsection \<open>SciPy: banded sparse matrices\<close>

text \<open>
  A square sparse matrix in diagonal storage: its size and, for each stored offset, the
  coefficients of that diagonal. Offset \<open>k \<ge> 0\<close> is the diagonal of the cells
  \<open>(t, t + k)\<close>, offset \<open>-k\<close> that of the cells \<open>(t + k, t)\<close>.
\<close>

record matrix =
  msize :: nat
  mbands :: "(int \<times> real list) list"

text \<open>
  \<open>scipy.sparse.diags(diagonals, offsets)\<close> with no shape: the matrix is square of size
  \<open>len(diagonals[0]) + abs(offsets[0])\<close>; a diagonal longer than its place is cut, one
  of length one is broadcast, any other length raises ValueError, as do an offset outside
  the matrix and a repeated offset.
\<close>

definition fit_diagonal :: "nat \<Rightarrow> real list \<times> int \<Rightarrow> error + real list" where
  "fit_diagonal m p =
     (case p of (d, off) \<Rightarrow>
       let len = min (min (int m + off) (int m - off)) (int m)
       in if len < 0 then Inl ValueError
          else if len \<le> int (length d) then Inr (take (nat len) d)
          else if length d = 1 then Inr (replicate (nat len) (hd d))
          else Inl ValueError)"

definition diags :: "real list list \<Rightarrow> int list \<Rightarrow> error + matrix" where
  "diags diagonals offsets =
     (if length diagonals \<noteq> length offsets then Inl ValueError
      else case diagonals of
        [] \<Rightarrow> Inl IndexError
      | d0 # _ \<Rightarrow>
          let m = length d0 + nat \<bar>hd offsets\<bar>
          in bindE (mapE (fit_diagonal m) (zip diagonals offsets)) (\<lambda>ds.
               if distinct offsets then Inr \<lparr>msize = m, mbands = zip offsets ds\<rparr>
               else Inl ValueError))"

text \<open>The coefficient \<open>A[i, j]\<close>: the matrix is the sum of its diagonals.\<close>

definition entry :: "matrix \<Rightarrow> nat \<Rightarrow> nat \<Rightarrow> real" where
  "entry A i j =
     sum_list (map (\<lambda>(off, d). if int j - int i = off then d ! min i j else 0) (mbands A))"

text \<open>\<open>A @ x\<close>: a vector of another length raises ValueError.\<close>

definition matvec :: "matrix \<Rightarrow> real list \<Rightarrow> error + real list" where
  "matvec A x =
     (if length x \<noteq> msize A then Inl ValueError
      else Inr (map (\<lambda>i. sum_list (map (\<lambda>j. entry A i j * x ! j) [0..<msize A]))
                  [0..<msize A]))"

text \<open>
  A linear solver is a parameter of the stepping loops: \<open>spsolve(A, b)\<close> returns a
  vector, \<open>cgs(A, b)\<close> a vector and an integer flag (\<open>0\<close> when the iteration met its
  tolerance, positive when the iteration budget ran out).
\<close>

type_synonym solver = "matrix \<Rightarrow> real list \<Rightarrow> real list"
type_synonym iter_solver = "matrix \<Rightarrow> real list \<Rightarrow> real list \<times> int"

text \<open>
  An exact direct solver, by elimination without pivoting on the dense augmented rows.
  It is used for the concrete runs below, where a solver has to be named.
\<close>

fun eliminate :: "real list list \<Rightarrow> real list" where
  "eliminate [] = []"
| "eliminate (row # rows) =
     (let piv = map (\<lambda>a. a / hd row) (tl row);
          xs = eliminate (map (\<lambda>s. map2 (\<lambda>a b. b - hd s * a) piv (tl s)) rows)
      in (last piv - sum_list (map2 (\<lambda>a x. a * x) (butlast piv) xs)) # xs)"

definition direct_solve :: solver where
  "direct_solve A b =
     eliminate (map (\<lambda>i. map (\<lambda>j. entry A i j) [0..<msize A] @ [b ! i]) [0..<msize A])"

text \<open>
  An iterative solver whose budget is spent at once: it returns its starting vector, zero,
  and a positive flag ("tolerance not reached"). It is used for a concrete run below.
\<close>

definition stalled_solver :: iter_solver where
  "stalled_solver A b = (replicate (length b) 0, 1)"

subsection \<open>One dimension: the cells of the notebook\<close>

text \<open>
  \<^verbatim>\<open>arr = np.zeros(N); arr[4*N//10: 6*N//10] = 100; arr[0] = left_bc; arr[-1] = right_bc\<close>
\<close>

definition initial_configuration :: "int \<Rightarrow> real \<Rightarrow> real \<Rightarrow> error + real list" where
  "initial_configuration N left_bc right_bc =
     bindE (np_zeros N) (\<lambda>arr.
     bindE (setitem (fill_slice arr (4 * N div 10) (6 * N div 10) 100) 0 left_bc) (\<lambda>arr.
     setitem arr (- 1) right_bc))"

text \<open>
  \<^verbatim>\<open>ones = np.ones(N - 2)\<close>
  \<^verbatim>\<open>A = diags([-1*ones[:-1], 4*ones, -1*ones[:-1]], [-1, 0, 1]).tocsr()\<close>
  \<^verbatim>\<open>B = diags([ones[:-1], ones[:-1]], [-1, 1])\<close>
\<close>

definition assemble_1d :: "int \<Rightarrow> error + matrix \<times> matrix" where
  "assemble_1d N =
     bindE (np_ones (N - 2)) (\<lambda>ones.
     bindE (diags [smul (- 1) (butlast ones), smul 4 ones, smul (- 1) (butlast ones)]
              [- 1, 0, 1]) (\<lambda>A.
     bindE (diags [butlast ones, butlast ones] [- 1, 1]) (\<lambda>B.
     Inr (A, B))))"

text \<open>
  The right-hand side of one step, from the interior field of the step before:
  \<^verbatim>\<open>left_side = interior_points[1]; right_side = interior_points[-2]\<close>
  \<^verbatim>\<open>interior_points = B@interior_points\<close>
  \<^verbatim>\<open>interior_points[0] = 2*left_bc + left_side\<close>
  \<^verbatim>\<open>interior_points[-1] = 2*right_bc + right_side\<close>
\<close>

definition explicit_rhs :: "matrix \<Rightarrow> real \<Rightarrow> real \<Rightarrow> real list \<Rightarrow> error + real list" where
  "explicit_rhs B left_bc right_bc interior =
     bindE (getitem interior 1) (\<lambda>left_side.
     bindE (getitem interior (- 2)) (\<lambda>right_side.
     bindE (matvec B interior) (\<lambda>prod.
     bindE (setitem prod 0 (2 * left_bc + left_side)) (\<lambda>prod.
     setitem prod (- 1) (2 * right_bc + right_side)))))"

text \<open>\<^verbatim>\<open>interior_points = spsolve(A, interior_points)\<close>\<close>

definition step_1d ::
  "solver \<Rightarrow> matrix \<Rightarrow> matrix \<Rightarrow> real \<Rightarrow> real \<Rightarrow> real list \<Rightarrow> error + real list" where
  "step_1d spsolve A B left_bc right_bc interior =
     bindE (explicit_rhs B left_bc right_bc interior) (\<lambda>rhs. Inr (spsolve A rhs))"

text \<open>
  The variables the stepping cell reads and writes. \<open>solver_calls\<close> is bookkeeping of
  the model, not a variable of the notebook: it counts the calls of the solver.
\<close>

record state_1d =
  arr :: "real list"
  interior_points :: "real list"
  storage :: "real list list"
  solver_calls :: nat

text \<open>The body of \<^verbatim>\<open>for i in range(1, t_end)\<close>, ending in \<^verbatim>\<open>storage[i] = interior_points\<close>.\<close>

definition body_1d ::
  "solver \<Rightarrow> matrix \<Rightarrow> matrix \<Rightarrow> real \<Rightarrow> real \<Rightarrow> state_1d \<Rightarrow> int \<Rightarrow> error + state_1d" where
  "body_1d spsolve A B left_bc right_bc s i =
     bindE (step_1d spsolve A B left_bc right_bc (interior_points s)) (\<lambda>x.
     bindE (setrow (storage s) i x) (\<lambda>st.
     Inr (s\<lparr>interior_points := x, storage := st, solver_calls := Suc (solver_calls s)\<rparr>)))"

text \<open>
  The one-dimensional notebook from the initial configuration to the end of the loop:
  \<^verbatim>\<open>interior_points = arr[1: -1]\<close>
  \<^verbatim>\<open>storage = np.zeros(shape=(t_end, N-2)); storage[0] = interior_points\<close>
\<close>

definition run_1d :: "solver \<Rightarrow> int \<Rightarrow> real \<Rightarrow> real \<Rightarrow> int \<Rightarrow> error + state_1d" where
  "run_1d spsolve N left_bc right_bc t_end =
     bindE (initial_configuration N left_bc right_bc) (\<lambda>a.
     bindE (assemble_1d N) (\<lambda>(A, B).
     bindE (np_zeros2 t_end (N - 2)) (\<lambda>st.
     bindE (setrow st 0 (butlast (tl a))) (\<lambda>st.
     foldE (body_1d spsolve A B left_bc right_bc)
       \<lparr>arr = a, interior_points = butlast (tl a), storage = st, solver_calls = 0\<rparr>
       (range_py 1 t_end)))))"

subsection \<open>Two dimensions: the cells of the notebook\<close>

text \<open>
  \<^verbatim>\<open>diagonals = [(1 + 4*r)* np.ones(N*N), -r*np.ones(N*N - 1), -r*np.ones(N*N -1),\<close>
  \<^verbatim>\<open>             -r*np.ones(N*N - N), -r*np.ones(N*N - N)]\<close>
  \<^verbatim>\<open>A = diags(diagonals, [0, -1, 1, N, -N], format="csr")\<close>
\<close>

definition assemble_A_2d :: "int \<Rightarrow> real \<Rightarrow> error + matrix" where
  "assemble_A_2d N r =
     bindE (np_ones (N * N)) (\<lambda>d0.
     bindE (np_ones (N * N - 1)) (\<lambda>d1.
     bindE (np_ones (N * N - 1)) (\<lambda>d2.
     bindE (np_ones (N * N - N)) (\<lambda>d3.
     bindE (np_ones (N * N - N)) (\<lambda>d4.
     diags [smul (1 + 4 * r) d0, smul (- r) d1, smul (- r) d2, smul (- r) d3, smul (- r) d4]
       [0, - 1, 1, N, - N])))))"

text \<open>
  \<^verbatim>\<open>diagonals = [(1-4*r)* np.ones(N*N), r*np.ones(N*N - 1), r*np.ones(N*N -1),\<close>
  \<^verbatim>\<open>             r*np.ones(N*N - N), r*np.ones(N*N - N)]\<close>
  \<^verbatim>\<open>M = diags(diagonals, [0, -1, 1, -N, N], format = "csr")\<close>
\<close>

definition assemble_M_2d :: "int \<Rightarrow> real \<Rightarrow> error + matrix" where
  "assemble_M_2d N r =
     bindE (np_ones (N * N)) (\<lambda>d0.
     bindE (np_ones (N * N - 1)) (\<lambda>d1.
     bindE (np_ones (N * N - 1)) (\<lambda>d2.
     bindE (np_ones (N * N - N)) (\<lambda>d3.
     bindE (np_ones (N * N - N)) (\<lambda>d4.
     diags [smul (1 - 4 * r) d0, smul r d1, smul r d2, smul r d3, smul r d4]
       [0, - 1, 1, - N, N])))))"

text \<open>
  \<^verbatim>\<open>values = np.zeros((N, N)); values[mask] = 10; values = values.flatten()\<close>
  The boolean array \<open>mask\<close> (row-major, here \<open>mask_cells\<close>) is an input: the notebook draws two disks into
  it. A mask of another shape raises IndexError.
\<close>

definition initial_values :: "int \<Rightarrow> bool list \<Rightarrow> error + real list" where
  "initial_values N mask_cells =
     (if N < 0 then Inl ValueError
      else if int (length mask_cells) \<noteq> N * N then Inl IndexError
      else Inr (map (\<lambda>m. if m then 10 else 0) mask_cells))"

text \<open>\<open>np.zeros((steps, N, N))\<close>: \<open>steps\<close> frames, each the flattening of an \<open>(N, N)\<close> array.\<close>

definition np_zeros3 :: "int \<Rightarrow> int \<Rightarrow> error + real list list" where
  "np_zeros3 t N =
     (if t < 0 \<or> N < 0 then Inl ValueError
      else Inr (replicate (nat t) (replicate (nat (N * N)) 0)))"

text \<open>
  The variables of the two-dimensional stepping cell; \<open>frames\<close> is the notebook's
  \<open>arr\<close> of that cell, and \<open>solver_calls_2d\<close> again is bookkeeping of the model.
\<close>

record state_2d =
  "values" :: "real list"
  frames :: "real list list"
  solver_calls_2d :: nat

text \<open>
  The body of \<^verbatim>\<open>for i in range(1, steps)\<close>:
  \<^verbatim>\<open>values, _ = cgs(A, M@values)\<close>
  \<^verbatim>\<open>arr[i] = values.reshape((N, N))\<close>
  The second loop of the notebook runs the same two lines with \<open>cp_linalg.cgs\<close>.
\<close>

definition body_2d ::
  "iter_solver \<Rightarrow> matrix \<Rightarrow> matrix \<Rightarrow> int \<Rightarrow> state_2d \<Rightarrow> int \<Rightarrow> error + state_2d" where
  "body_2d cgs A M N s i =
     bindE (matvec M (values s)) (\<lambda>b.
     case cgs A b of (x, info) \<Rightarrow>
     bindE (reshape N x) (\<lambda>frame.
     bindE (setrow (frames s) i frame) (\<lambda>fr.
     Inr (s\<lparr>values := x, frames := fr, solver_calls_2d := Suc (solver_calls_2d s)\<rparr>))))"

text \<open>
  The two-dimensional notebook from the assembly to the end of the loop:
  \<^verbatim>\<open>arr = np.zeros((steps, N, N)); arr[0] = values.reshape((N, N))\<close>
\<close>

definition run_2d :: "iter_solver \<Rightarrow> int \<Rightarrow> real \<Rightarrow> bool list \<Rightarrow> int \<Rightarrow> error + state_2d" where
  "run_2d cgs N r mask_cells steps =
     bindE (assemble_A_2d N r) (\<lambda>A.
     bindE (initial_values N mask_cells) (\<lambda>v.
     bindE (assemble_M_2d N r) (\<lambda>M.
     bindE (np_zeros3 steps N) (\<lambda>fr.
     bindE (reshape N v) (\<lambda>frame.
     bindE (setrow fr 0 frame) (\<lambda>fr.
     foldE (body_2d cgs A M N) \<lparr>values = v, frames = fr, solver_calls_2d = 0\<rparr>
       (range_py 1 steps)))))))"

subsection \<open>The matrices and matrix properties the specification names\<close>

text \<open>
  The specification's words for the operators, to compare the assembled matrices with: a
  tridiagonal matrix with \<open>d\<close> on the main diagonal and \<open>e\<close> beside it, and the
  one-dimensional pair for a diffusion number \<open>r\<close>.
\<close>

definition tridiagonal :: "real \<Rightarrow> real \<Rightarrow> nat \<Rightarrow> nat \<Rightarrow> real" where
  "tridiagonal d e i j = (if i = j then d else if i = j + 1 \<or> j = i + 1 then e else 0)"

definition A_spec_1d :: "real \<Rightarrow> nat \<Rightarrow> nat \<Rightarrow> real" where
  "A_spec_1d r = tridiagonal (2 * (1 + r)) (- r)"

definition B_spec_1d :: "real \<Rightarrow> nat \<Rightarrow> nat \<Rightarrow> real" where
  "B_spec_1d r = tridiagonal 0 r"

text \<open>
  A five-banded matrix over the flattened grid of edge length \<open>n\<close>: \<open>d\<close> on the main
  diagonal, \<open>e\<close> on the diagonals at distance \<open>1\<close> and \<open>n\<close>. In \<open>five_banded\<close> the
  diagonals at distance \<open>1\<close> are full; in \<open>five_banded_no_wrap\<close> they are cut where they
  would join the last cell of a grid row to the first cell of the next row.
\<close>

definition five_banded :: "nat \<Rightarrow> real \<Rightarrow> real \<Rightarrow> nat \<Rightarrow> nat \<Rightarrow> real" where
  "five_banded n d e i j =
     (if i = j then d
      else if i = j + 1 \<or> j = i + 1 \<or> i = j + n \<or> j = i + n then e
      else 0)"

definition five_banded_no_wrap :: "nat \<Rightarrow> real \<Rightarrow> real \<Rightarrow> nat \<Rightarrow> nat \<Rightarrow> real" where
  "five_banded_no_wrap n d e i j =
     (if i = j then d
      else if (i = j + 1 \<and> i mod n \<noteq> 0) \<or> (j = i + 1 \<and> j mod n \<noteq> 0)
              \<or> i = j + n \<or> j = i + n then e
      else 0)"

text \<open>Symmetry, and strict diagonal dominance by rows.\<close>

definition symmetric :: "matrix \<Rightarrow> bool" where
  "symmetric A = (\<forall>i \<in> {0..<msize A}. \<forall>j \<in> {0..<msize A}. entry A i j = entry A j i)"

definition off_diagonal_sum :: "matrix \<Rightarrow> nat \<Rightarrow> real" where
  "off_diagonal_sum A i = (\<Sum>j \<in> {0..<msize A} - {i}. \<bar>entry A i j\<bar>)"

definition strictly_dominant :: "matrix \<Rightarrow> bool" where
  "strictly_dominant A = (\<forall>i \<in> {0..<msize A}. off_diagonal_sum A i < \<bar>entry A i i\<bar>)"

text \<open>
  What every solver of the library does with shapes: the solution of a system of size
  \<open>m\<close> is a vector of length \<open>m\<close>.
\<close>

definition shape_preserving :: "solver \<Rightarrow> bool" where
  "shape_preserving s = (\<forall>A b. length b = msize A \<longrightarrow> length (s A b) = msize A)"

text \<open>
  The arrays of the notebook hold float64 values; the definitions above compute with real
  numbers, and agree with the cells wherever no operation of the cell rounds. The float64
  values, normal and subnormal, are the integers of magnitude below \<open>2^53\<close> scaled by a
  power of two from \<open>2^-1074\<close> to \<open>2^971\<close>. A sum or product whose exact value is such a
  number is computed without rounding.
\<close>

definition is_float64 :: "real \<Rightarrow> bool" where
  "is_float64 x =
     (\<exists>(m::int) (k::nat). \<bar>m\<bar> < 2 ^ 53 \<and> k \<le> 2045 \<and> x = of_int m * 2 ^ k / 2 ^ 1074)"

section \<open>Properties\<close>

subsection \<open>Sequencing and the library primitives\<close>

lemma bindE_Inl [simp]: "bindE (Inl e) f = Inl e"
  by (simp add: bindE_def)

lemma bindE_Inr [simp]: "bindE (Inr x) f = f x"
  by (simp add: bindE_def)

lemma bindE_eq_Inr:
  "bindE r f = Inr y \<longleftrightarrow> (\<exists>x. r = Inr x \<and> f x = Inr y)"
  by (cases r) simp_all

lemma np_ones_eq: "0 \<le> n \<Longrightarrow> np_ones n = Inr (replicate (nat n) 1)"
  by (simp add: np_ones_def np_full_def)

lemma np_ones_neg: "n < 0 \<Longrightarrow> np_ones n = Inl ValueError"
  by (simp add: np_ones_def np_full_def)

lemma smul_replicate: "smul c (replicate n x) = replicate n (c * x)"
  by (simp add: smul_def)

lemma butlast_replicate: "butlast (replicate n x) = replicate (n - 1) x"
  by (simp add: butlast_conv_take min_def)

lemma fit_diagonal_exact:
  "int (length d) = int m - \<bar>off\<bar> \<Longrightarrow> fit_diagonal m (d, off) = Inr d"
  by (auto simp: fit_diagonal_def Let_def min_def)

subsection \<open>What the assembly cells build\<close>

lemma assemble_1d_eq:
  assumes "3 \<le> N"
  shows "assemble_1d N =
    Inr (\<lparr>msize = nat (N - 2),
           mbands = [(- 1, replicate (nat (N - 3)) (- 1)), (0, replicate (nat (N - 2)) 4),
                     (1, replicate (nat (N - 3)) (- 1))]\<rparr>,
         \<lparr>msize = nat (N - 2),
           mbands = [(- 1, replicate (nat (N - 3)) 1), (1, replicate (nat (N - 3)) 1)]\<rparr>)"
proof -
  obtain m where m: "nat (N - 2) = Suc m"
    using assms by (cases "nat (N - 2)") auto
  then have m': "nat (N - 3) = m"
    by linarith
  have ones: "np_ones (N - 2) = Inr (replicate (Suc m) 1)"
    using assms m by (simp add: np_ones_eq)
  show ?thesis
    unfolding assemble_1d_def ones m m'
    by (simp add: butlast_replicate smul_replicate diags_def fit_diagonal_exact del: replicate_Suc)
qed

lemma assemble_1d_small: "N < 3 \<Longrightarrow> assemble_1d N = Inl ValueError"
proof (cases "N < 2")
  case True
  then show ?thesis by (simp add: assemble_1d_def np_ones_neg)
next
  case False
  assume "N < 3"
  with False have "N = 2" by simp
  then show ?thesis
    by (simp add: assemble_1d_def np_ones_eq diags_def fit_diagonal_def smul_def)
qed

lemma entry_A_1d:
  assumes "i < m" "j < m"
  shows "entry \<lparr>msize = m, mbands = [(- 1, replicate (m - 1) (- 1)), (0, replicate m 4),
                     (1, replicate (m - 1) (- 1))]\<rparr> i j =
         (if i = j then 4 else if i = j + 1 \<or> j = i + 1 then - 1 else 0)"
  using assms by (auto simp: entry_def)

lemma entry_B_1d:
  assumes "i < m" "j < m"
  shows "entry \<lparr>msize = m, mbands = [(- 1, replicate (m - 1) 1), (1, replicate (m - 1) 1)]\<rparr> i j =
         (if i = j + 1 \<or> j = i + 1 then 1 else 0)"
  using assms by (auto simp: entry_def)

lemma square_bounds:
  fixes N :: int
  assumes "2 \<le> N"
  shows "N \<le> N * N" and "4 \<le> N * N"
proof -
  have "N * 1 \<le> N * N"
    using assms by (intro mult_left_mono) auto
  then show "N \<le> N * N" by simp
  have "2 * 2 \<le> N * N"
    using assms by (intro mult_mono) auto
  then show "4 \<le> N * N" by simp
qed

lemma assemble_A_2d_eq:
  assumes "2 \<le> N"
  shows "assemble_A_2d N r =
    Inr \<lparr>msize = nat (N * N),
          mbands = [(0, replicate (nat (N * N)) (1 + 4 * r)),
                    (- 1, replicate (nat (N * N - 1)) (- r)),
                    (1, replicate (nat (N * N - 1)) (- r)),
                    (N, replicate (nat (N * N - N)) (- r)),
                    (- N, replicate (nat (N * N - N)) (- r))]\<rparr>"
proof -
  note sq = square_bounds[OF assms]
  have ones: "np_ones (N * N) = Inr (replicate (nat (N * N)) 1)"
    "np_ones (N * N - 1) = Inr (replicate (nat (N * N - 1)) 1)"
    "np_ones (N * N - N) = Inr (replicate (nat (N * N - N)) 1)"
    using sq by (simp_all add: np_ones_eq)
  have fit: "fit_diagonal (nat (N * N)) (replicate (nat (N * N)) a, 0) = Inr (replicate (nat (N * N)) a)"
    "fit_diagonal (nat (N * N)) (replicate (nat (N * N - 1)) a, - 1) = Inr (replicate (nat (N * N - 1)) a)"
    "fit_diagonal (nat (N * N)) (replicate (nat (N * N - 1)) a, 1) = Inr (replicate (nat (N * N - 1)) a)"
    "fit_diagonal (nat (N * N)) (replicate (nat (N * N - N)) a, N) = Inr (replicate (nat (N * N - N)) a)"
    "fit_diagonal (nat (N * N)) (replicate (nat (N * N - N)) a, - N) = Inr (replicate (nat (N * N - N)) a)"
    for a :: real
    using sq assms by (simp_all add: fit_diagonal_exact)
  have dist: "distinct [0, - 1, 1, N, - N]"
    using assms by simp
  show ?thesis
    unfolding assemble_A_2d_def ones
    using dist by (simp add: smul_replicate diags_def fit Let_def)
qed

lemma assemble_M_2d_eq:
  assumes "2 \<le> N"
  shows "assemble_M_2d N r =
    Inr \<lparr>msize = nat (N * N),
          mbands = [(0, replicate (nat (N * N)) (1 - 4 * r)),
                    (- 1, replicate (nat (N * N - 1)) r),
                    (1, replicate (nat (N * N - 1)) r),
                    (- N, replicate (nat (N * N - N)) r),
                    (N, replicate (nat (N * N - N)) r)]\<rparr>"
proof -
  note sq = square_bounds[OF assms]
  have ones: "np_ones (N * N) = Inr (replicate (nat (N * N)) 1)"
    "np_ones (N * N - 1) = Inr (replicate (nat (N * N - 1)) 1)"
    "np_ones (N * N - N) = Inr (replicate (nat (N * N - N)) 1)"
    using sq by (simp_all add: np_ones_eq)
  have fit: "fit_diagonal (nat (N * N)) (replicate (nat (N * N)) a, 0) = Inr (replicate (nat (N * N)) a)"
    "fit_diagonal (nat (N * N)) (replicate (nat (N * N - 1)) a, - 1) = Inr (replicate (nat (N * N - 1)) a)"
    "fit_diagonal (nat (N * N)) (replicate (nat (N * N - 1)) a, 1) = Inr (replicate (nat (N * N - 1)) a)"
    "fit_diagonal (nat (N * N)) (replicate (nat (N * N - N)) a, N) = Inr (replicate (nat (N * N - N)) a)"
    "fit_diagonal (nat (N * N)) (replicate (nat (N * N - N)) a, - N) = Inr (replicate (nat (N * N - N)) a)"
    for a :: real
    using sq assms by (simp_all add: fit_diagonal_exact)
  have dist: "distinct [0, - 1, 1, - N, N]"
    using assms by simp
  show ?thesis
    unfolding assemble_M_2d_def ones
    using dist by (simp add: smul_replicate diags_def fit Let_def)
qed

lemma assemble_2d_small:
  assumes "N = 0 \<or> N = 1"
  shows "assemble_A_2d N r = Inl ValueError" and "assemble_M_2d N r = Inl ValueError"
  using assms
  by (auto simp: assemble_A_2d_def assemble_M_2d_def np_ones_def np_full_def diags_def
      fit_diagonal_def smul_def)

lemma assemble_1d_entries:
  assumes "3 \<le> N"
  obtains A B where "assemble_1d N = Inr (A, B)"
    and "msize A = nat (N - 2)" and "msize B = nat (N - 2)"
    and "\<And>i j. i < nat (N - 2) \<Longrightarrow> j < nat (N - 2) \<Longrightarrow> entry A i j = tridiagonal 4 (- 1) i j"
    and "\<And>i j. i < nat (N - 2) \<Longrightarrow> j < nat (N - 2) \<Longrightarrow> entry B i j = tridiagonal 0 1 i j"
proof -
  have m: "nat (N - 3) = nat (N - 2) - 1"
    using assms by simp
  show ?thesis
  proof (rule that[OF assemble_1d_eq[OF assms]])
    show "entry \<lparr>msize = nat (N - 2),
           mbands = [(- 1, replicate (nat (N - 3)) (- 1)), (0, replicate (nat (N - 2)) 4),
                     (1, replicate (nat (N - 3)) (- 1))]\<rparr> i j = tridiagonal 4 (- 1) i j"
      if "i < nat (N - 2)" "j < nat (N - 2)" for i j
      unfolding m using that by (subst entry_A_1d) (simp_all add: tridiagonal_def)
    show "entry \<lparr>msize = nat (N - 2),
           mbands = [(- 1, replicate (nat (N - 3)) 1), (1, replicate (nat (N - 3)) 1)]\<rparr> i j
          = tridiagonal 0 1 i j"
      if "i < nat (N - 2)" "j < nat (N - 2)" for i j
      unfolding m using that by (subst entry_B_1d) (simp_all add: tridiagonal_def)
  qed simp_all
qed

subsection \<open>The one-dimensional operators\<close>

text \<open>
  Claim C5, as the code has it. The assembly cell takes no diffusion number: for every
  \<open>N \<ge> 3\<close> it builds, at size \<open>N - 2\<close>, the tridiagonal matrix with main diagonal
  \<open>4\<close> and off-diagonals \<open>-1\<close> for \<open>A\<close>, and the one with zero main diagonal and
  off-diagonals \<open>1\<close> for \<open>B\<close>. These are the specification's \<open>2(1 + r)\<close>, \<open>-r\<close> and
  \<open>r\<close> at \<open>r = 1\<close>.
\<close>

theorem C5_assembled_1d:
  assumes "3 \<le> N" and "i < nat (N - 2)" and "j < nat (N - 2)"
  shows "\<exists>A B. assemble_1d N = Inr (A, B)
           \<and> msize A = nat (N - 2) \<and> msize B = nat (N - 2)
           \<and> entry A i j = tridiagonal 4 (- 1) i j \<and> entry B i j = tridiagonal 0 1 i j
           \<and> entry A i j = A_spec_1d 1 i j \<and> entry B i j = B_spec_1d 1 i j"
proof -
  obtain A B where "assemble_1d N = Inr (A, B)" "msize A = nat (N - 2)" "msize B = nat (N - 2)"
    "entry A i j = tridiagonal 4 (- 1) i j" "entry B i j = tridiagonal 0 1 i j"
    using assemble_1d_entries[OF assms(1)] assms(2,3) by metis
  then show ?thesis
    by (simp add: A_spec_1d_def B_spec_1d_def)
qed

theorem C5_assembled_1d_witness:
  "map_sum id (\<lambda>(A, B). (msize A, msize B, entry A 1 2, entry B 1 2)) (assemble_1d 5)
     = Inr (3, 3, - 1, 1)"
  using C5_assembled_1d[of 5 1 2] by (auto simp: tridiagonal_def)

text \<open>
  The claim as stated fails for every \<open>r \<noteq> 1\<close>: at \<open>r = 1/2\<close> it asks for the
  coefficients \<open>3\<close>, \<open>-1/2\<close> and \<open>1/2\<close>, and the cell builds \<open>4\<close>, \<open>-1\<close> and \<open>1\<close>.
\<close>

theorem C5_general_r_counterexample:
  "map_sum id (\<lambda>(A, B). (entry A 0 0, entry A 0 1, entry B 0 1)) (assemble_1d 5) = Inr (4, - 1, 1)
   \<and> (A_spec_1d (1 / 2) 0 0, A_spec_1d (1 / 2) 0 1, B_spec_1d (1 / 2) 0 1) = (3, - (1 / 2), 1 / 2)"
  by (simp add: assemble_1d_eq entry_def A_spec_1d_def B_spec_1d_def tridiagonal_def)

subsection \<open>The two-dimensional operators\<close>

lemma entry_A_2d:
  assumes "2 \<le> n" "n \<le> m" "i < m" "j < m"
  shows "entry \<lparr>msize = m,
           mbands = [(0, replicate m d), (- 1, replicate (m - 1) e), (1, replicate (m - 1) e),
                     (int n, replicate (m - n) e), (- int n, replicate (m - n) e)]\<rparr> i j
         = five_banded n d e i j"
  using assms by (auto simp: entry_def five_banded_def)

lemma entry_M_2d:
  assumes "2 \<le> n" "n \<le> m" "i < m" "j < m"
  shows "entry \<lparr>msize = m,
           mbands = [(0, replicate m d), (- 1, replicate (m - 1) e), (1, replicate (m - 1) e),
                     (- int n, replicate (m - n) e), (int n, replicate (m - n) e)]\<rparr> i j
         = five_banded n d e i j"
  using assms by (auto simp: entry_def five_banded_def)

lemma assemble_2d_entries:
  assumes "2 \<le> N"
  obtains A M where "assemble_A_2d N r = Inr A" and "assemble_M_2d N r = Inr M"
    and "msize A = nat N * nat N" and "msize M = nat N * nat N"
    and "\<And>i j. i < nat N * nat N \<Longrightarrow> j < nat N * nat N \<Longrightarrow>
           entry A i j = five_banded (nat N) (1 + 4 * r) (- r) i j"
    and "\<And>i j. i < nat N * nat N \<Longrightarrow> j < nat N * nat N \<Longrightarrow>
           entry M i j = five_banded (nat N) (1 - 4 * r) r i j"
proof -
  define n where "n = nat N"
  have N: "N = int n" and n2: "2 \<le> n"
    using assms by (simp_all add: n_def)
  have le: "n \<le> n * n"
    using n2 by simp
  have sz: "nat (int n * int n) = n * n" "nat (int n * int n - 1) = n * n - 1"
    "nat (int n * int n - int n) = n * n - n"
    using le by (simp_all add: nat_mult_distrib nat_diff_distrib' flip: of_nat_mult)
  show ?thesis
  proof (rule that[OF assemble_A_2d_eq[OF assms] assemble_M_2d_eq[OF assms]])
    fix i j assume "i < nat N * nat N" "j < nat N * nat N"
    then have ij: "i < n * n" "j < n * n"
      by (simp_all add: n_def)
    show "entry \<lparr>msize = nat (N * N),
          mbands = [(0, replicate (nat (N * N)) (1 + 4 * r)),
                    (- 1, replicate (nat (N * N - 1)) (- r)),
                    (1, replicate (nat (N * N - 1)) (- r)),
                    (N, replicate (nat (N * N - N)) (- r)),
                    (- N, replicate (nat (N * N - N)) (- r))]\<rparr> i j
       = five_banded (nat N) (1 + 4 * r) (- r) i j"
      unfolding N sz nat_int by (rule entry_A_2d[OF n2 le ij])
    show "entry \<lparr>msize = nat (N * N),
          mbands = [(0, replicate (nat (N * N)) (1 - 4 * r)),
                    (- 1, replicate (nat (N * N - 1)) r),
                    (1, replicate (nat (N * N - 1)) r),
                    (- N, replicate (nat (N * N - N)) r),
                    (N, replicate (nat (N * N - N)) r)]\<rparr> i j
       = five_banded (nat N) (1 - 4 * r) r i j"
      unfolding N sz nat_int by (rule entry_M_2d[OF n2 le ij])
  qed (simp_all add: N sz)
qed

text \<open>
  Claim C1, as the code has it. The cells hand five full diagonals to \<open>diags\<close> and
  nothing removes a coefficient afterwards: for every \<open>N \<ge> 3\<close> and every flat index
  \<open>k\<close> with \<open>k + 1 < N * N\<close>, the end of a grid row included, \<open>A[k, k+1] = A[k+1, k] = -r\<close>
  and \<open>M[k, k+1] = M[k+1, k] = r\<close>.
\<close>

theorem C1_unit_bands_full:
  assumes "3 \<le> N" and "int k + 1 < N * N"
  shows "\<exists>A M. assemble_A_2d N r = Inr A \<and> assemble_M_2d N r = Inr M
           \<and> entry A k (k + 1) = - r \<and> entry A (k + 1) k = - r
           \<and> entry M k (k + 1) = r \<and> entry M (k + 1) k = r"
proof -
  have N2: "2 \<le> N"
    using assms(1) by simp
  have "int (k + 1) < int (nat N * nat N)"
    using assms by (simp add: nat_mult_distrib)
  then have k: "k < nat N * nat N" "k + 1 < nat N * nat N"
    by linarith+
  obtain A M where "assemble_A_2d N r = Inr A" "assemble_M_2d N r = Inr M"
    and "entry A k (k + 1) = five_banded (nat N) (1 + 4 * r) (- r) k (k + 1)"
    and "entry A (k + 1) k = five_banded (nat N) (1 + 4 * r) (- r) (k + 1) k"
    and "entry M k (k + 1) = five_banded (nat N) (1 - 4 * r) r k (k + 1)"
    and "entry M (k + 1) k = five_banded (nat N) (1 - 4 * r) r (k + 1) k"
    using assemble_2d_entries[OF N2, of r] k by metis
  then show ?thesis
    by (simp add: five_banded_def)
qed

theorem C1_unit_bands_full_witness:
  "map_sum id (\<lambda>A. (entry A 7 8, entry A 8 7)) (assemble_A_2d 4 (1 / 2)) = Inr (- (1 / 2), - (1 / 2))
   \<and> map_sum id (\<lambda>M. (entry M 7 8, entry M 8 7)) (assemble_M_2d 4 (1 / 2)) = Inr (1 / 2, 1 / 2)"
  using C1_unit_bands_full[of 4 7 "1 / 2"] by auto

text \<open>
  The claim as stated fails: at \<open>N = 4\<close>, \<open>r = 1/2\<close> the index \<open>k = 3\<close> is the cell
  \<open>(0, 3)\<close>, the end of the first row, and \<open>k + 1 = 4\<close> is the cell \<open>(1, 0)\<close>; the
  coefficients joining them are \<open>-1/2\<close> in \<open>A\<close> and \<open>1/2\<close> in \<open>M\<close>, where the
  matrix without the wrap has \<open>0\<close>.
\<close>

theorem C1_wrap_counterexample:
  "(3::int) mod 4 = 4 - 1
   \<and> map_sum id (\<lambda>A. (entry A 3 4, entry A 4 3)) (assemble_A_2d 4 (1 / 2)) = Inr (- (1 / 2), - (1 / 2))
   \<and> map_sum id (\<lambda>M. (entry M 3 4, entry M 4 3)) (assemble_M_2d 4 (1 / 2)) = Inr (1 / 2, 1 / 2)
   \<and> five_banded_no_wrap 4 (1 + 4 * (1 / 2)) (- (1 / 2)) 3 4 = 0
   \<and> five_banded_no_wrap 4 (1 + 4 * (1 / 2)) (- (1 / 2)) 4 3 = 0"
  by (simp add: assemble_A_2d_eq assemble_M_2d_eq entry_def five_banded_no_wrap_def)

subsection \<open>Which grid sizes assemble\<close>

lemma run_1d_small: "N < 3 \<Longrightarrow> isl (run_1d spsolve N left_bc right_bc t_end)"
  by (cases "initial_configuration N left_bc right_bc")
     (simp_all add: run_1d_def assemble_1d_small)

text \<open>
  Claim C4, as the code has it. No cell checks \<open>N\<close>; what fails, fails inside the library
  with ValueError. The one-dimensional assembly fails for every \<open>N < 3\<close>, and the run
  ends there, before the loop. The two-dimensional assembly fails for \<open>N = 0\<close> and
  \<open>N = 1\<close> and succeeds for \<open>N = 2\<close>. For \<open>N \<ge> 3\<close> every assembly succeeds.
\<close>

theorem C4_assembly_domain:
  "(3 \<le> N \<longrightarrow> (\<exists>A B. assemble_1d N = Inr (A, B))
        \<and> (\<exists>A. assemble_A_2d N r = Inr A) \<and> (\<exists>M. assemble_M_2d N r = Inr M))
   \<and> (N < 3 \<longrightarrow> assemble_1d N = Inl ValueError \<and> isl (run_1d spsolve N left_bc right_bc t_end))
   \<and> (N = 2 \<longrightarrow> (\<exists>A. assemble_A_2d N r = Inr A) \<and> (\<exists>M. assemble_M_2d N r = Inr M))
   \<and> (N = 0 \<or> N = 1 \<longrightarrow> assemble_A_2d N r = Inl ValueError \<and> assemble_M_2d N r = Inl ValueError
        \<and> run_2d cgs N r mask_cells steps = Inl ValueError)"
proof (intro conjI impI)
  assume "3 \<le> N"
  then show "\<exists>A B. assemble_1d N = Inr (A, B)"
    by (simp add: assemble_1d_eq)
  from \<open>3 \<le> N\<close> show "\<exists>A. assemble_A_2d N r = Inr A" "\<exists>M. assemble_M_2d N r = Inr M"
    by (simp_all add: assemble_A_2d_eq assemble_M_2d_eq)
next
  assume "N < 3"
  then show "assemble_1d N = Inl ValueError" "isl (run_1d spsolve N left_bc right_bc t_end)"
    by (simp_all add: assemble_1d_small run_1d_small)
next
  assume "N = 2"
  then show "\<exists>A. assemble_A_2d N r = Inr A" "\<exists>M. assemble_M_2d N r = Inr M"
    by (simp_all add: assemble_A_2d_eq assemble_M_2d_eq)
next
  assume small: "N = 0 \<or> N = 1"
  then show "assemble_A_2d N r = Inl ValueError" "assemble_M_2d N r = Inl ValueError"
    by (simp_all add: assemble_2d_small)
  then show "run_2d cgs N r mask_cells steps = Inl ValueError"
    by (simp add: run_2d_def)
qed

theorem C4_assembly_domain_witness:
  "(\<exists>A B. assemble_1d 3 = Inr (A, B)) \<and> (\<exists>A. assemble_A_2d 3 (1 / 2) = Inr A)
   \<and> assemble_1d 2 = Inl ValueError \<and> isl (run_1d direct_solve 2 10 10 5000)
   \<and> (\<exists>A. assemble_A_2d 2 (1 / 2) = Inr A)
   \<and> assemble_A_2d 1 (1 / 2) = Inl ValueError"
  using C4_assembly_domain[of 3 "1 / 2" direct_solve 10 10 5000]
    C4_assembly_domain[of 2 "1 / 2" direct_solve 10 10 5000]
    C4_assembly_domain[of 1 "1 / 2"]
  by simp

text \<open>
  The claim as stated fails in two dimensions: at \<open>N = 2\<close> both operators are assembled,
  as \<open>4 \<times> 4\<close> matrices, and no error is raised.
\<close>

theorem C4_two_by_two_counterexample:
  "assemble_A_2d 2 (1 / 2) =
     Inr \<lparr>msize = 4,
           mbands = [(0, [3, 3, 3, 3]), (- 1, [- (1 / 2), - (1 / 2), - (1 / 2)]),
                     (1, [- (1 / 2), - (1 / 2), - (1 / 2)]),
                     (2, [- (1 / 2), - (1 / 2)]), (- 2, [- (1 / 2), - (1 / 2)])]\<rparr>
   \<and> assemble_M_2d 2 (1 / 2) =
     Inr \<lparr>msize = 4,
           mbands = [(0, [- 1, - 1, - 1, - 1]), (- 1, [1 / 2, 1 / 2, 1 / 2]),
                     (1, [1 / 2, 1 / 2, 1 / 2]), (- 2, [1 / 2, 1 / 2]), (2, [1 / 2, 1 / 2])]\<rparr>"
  by (simp add: assemble_A_2d_eq assemble_M_2d_eq eval_nat_numeral)

subsection \<open>Indexing and the matrix-vector product\<close>

lemma index_py_nat: "k < n \<Longrightarrow> index_py n (int k) = Inr k"
  by (simp add: index_py_def)

lemma index_py_from_end: "0 < k \<Longrightarrow> k \<le> n \<Longrightarrow> index_py n (- int k) = Inr (n - k)"
  by (auto simp: index_py_def nat_diff_distrib')

lemma getitem_nat: "k < length xs \<Longrightarrow> getitem xs (int k) = Inr (xs ! k)"
  by (simp add: getitem_def index_py_nat)

lemma getitem_from_end:
  "0 < k \<Longrightarrow> k \<le> length xs \<Longrightarrow> getitem xs (- int k) = Inr (xs ! (length xs - k))"
  by (simp add: getitem_def index_py_from_end)

lemma setitem_nat: "k < length xs \<Longrightarrow> setitem xs (int k) v = Inr (xs[k := v])"
  by (simp add: setitem_def index_py_nat)

lemma setitem_from_end:
  "0 < k \<Longrightarrow> k \<le> length xs \<Longrightarrow> setitem xs (- int k) v = Inr (xs[length xs - k := v])"
  by (simp add: setitem_def index_py_from_end)

lemma setitem_length: "setitem xs i v = Inr ys \<Longrightarrow> length ys = length xs"
  by (auto simp: setitem_def bindE_eq_Inr)

lemma matvec_eq:
  "length x = msize A \<Longrightarrow>
     matvec A x = Inr (map (\<lambda>i. \<Sum>j = 0..<msize A. entry A i j * x ! j) [0..<msize A])"
  by (simp add: matvec_def interv_sum_list_conv_sum_set_nat)

lemma matvec_Inr:
  "matvec A x = Inr y \<longleftrightarrow>
     length x = msize A \<and> y = map (\<lambda>i. \<Sum>j = 0..<msize A. entry A i j * x ! j) [0..<msize A]"
  by (auto simp: matvec_def interv_sum_list_conv_sum_set_nat)

lemma tridiagonal_row:
  assumes "i < m"
  shows "(\<Sum>j = 0..<m. tridiagonal d e i j * x j)
         = d * x i + (if 0 < i then e * x (i - 1) else 0) + (if i + 1 < m then e * x (i + 1) else 0)"
proof -
  have "tridiagonal d e i j * x j
        = (if j = i then d * x i else 0)
          + (if j = i - 1 then (if 0 < i then e * x (i - 1) else 0) else 0)
          + (if j = i + 1 then e * x (i + 1) else 0)" for j
    by (auto simp: tridiagonal_def)
  then have "(\<Sum>j = 0..<m. tridiagonal d e i j * x j)
        = (\<Sum>j = 0..<m. if j = i then d * x i else 0)
          + (\<Sum>j = 0..<m. if j = i - 1 then (if 0 < i then e * x (i - 1) else 0) else 0)
          + (\<Sum>j = 0..<m. if j = i + 1 then e * x (i + 1) else 0)"
    by (simp add: sum.distrib)
  also have "\<dots> = d * x i + (if 0 < i then e * x (i - 1) else 0)
                   + (if i + 1 < m then e * x (i + 1) else 0)"
    using assms by (auto simp: sum.delta)
  finally show ?thesis .
qed

subsection \<open>The right-hand side of a one-dimensional step\<close>

lemma assembled_1d:
  assumes "assemble_1d N = Inr (A, B)"
  shows "3 \<le> N" and "msize A = nat (N - 2)" and "msize B = nat (N - 2)"
    and "i < nat (N - 2) \<Longrightarrow> j < nat (N - 2) \<Longrightarrow> entry A i j = tridiagonal 4 (- 1) i j"
    and "i < nat (N - 2) \<Longrightarrow> j < nat (N - 2) \<Longrightarrow> entry B i j = tridiagonal 0 1 i j"
proof -
  show N: "3 \<le> N"
    using assms assemble_1d_small[of N] by (cases "3 \<le> N") simp_all
  obtain A' B' where "assemble_1d N = Inr (A', B')"
    and "msize A' = nat (N - 2)" and "msize B' = nat (N - 2)"
    and "\<And>i j. i < nat (N - 2) \<Longrightarrow> j < nat (N - 2) \<Longrightarrow> entry A' i j = tridiagonal 4 (- 1) i j"
    and "\<And>i j. i < nat (N - 2) \<Longrightarrow> j < nat (N - 2) \<Longrightarrow> entry B' i j = tridiagonal 0 1 i j"
    using assemble_1d_entries[OF N] by blast
  with assms show "msize A = nat (N - 2)" and "msize B = nat (N - 2)"
    and "i < nat (N - 2) \<Longrightarrow> j < nat (N - 2) \<Longrightarrow> entry A i j = tridiagonal 4 (- 1) i j"
    and "i < nat (N - 2) \<Longrightarrow> j < nat (N - 2) \<Longrightarrow> entry B i j = tridiagonal 0 1 i j"
    by simp_all
qed

lemma explicit_rhs_eq:
  assumes "msize B = length u" and "2 \<le> length u"
  shows "explicit_rhs B left_bc right_bc u =
     Inr ((map (\<lambda>i. \<Sum>j = 0..<length u. entry B i j * u ! j) [0..<length u])
            [0 := 2 * left_bc + u ! 1, length u - 1 := 2 * right_bc + u ! (length u - 2)])"
proof -
  have get: "getitem u 1 = Inr (u ! 1)" "getitem u (- 2) = Inr (u ! (length u - 2))"
    using assms(2) getitem_nat[of 1 u] getitem_from_end[of 2 u] by simp_all
  have set0: "setitem p 0 v = Inr (p[0 := v])" if "length p = length u" for p v
    using assms(2) that by (auto simp: setitem_def index_py_def)
  have set1: "setitem p (- 1) v = Inr (p[length u - 1 := v])" if "length p = length u" for p v
    using assms(2) that by (simp add: setitem_def index_py_def nat_diff_distrib')
  show ?thesis
    unfolding explicit_rhs_def
    by (simp add: get matvec_eq assms(1) set0 set1)
qed

text \<open>
  Claim C6. A step exists when the interior field has at least two cells (\<open>N \<ge> 4\<close>).
  Then the vector handed to the solver has \<open>2 * left_bc + u[1]\<close> in slot \<open>0\<close> and
  \<open>2 * right_bc + u[-2]\<close> in its last slot, \<open>u\<close> being the interior field before the
  product; the product \<open>B u\<close> itself has \<open>u[1]\<close> and \<open>u[-2]\<close> there, so writing the two
  slots is adding \<open>2 * left_bc\<close> and \<open>2 * right_bc\<close> to them.
\<close>

theorem C6_boundary_injection:
  assumes "assemble_1d (int (length u) + 2) = Inr (A, B)" and "2 \<le> length u"
  shows "\<exists>Bu rhs. matvec B u = Inr Bu \<and> explicit_rhs B left_bc right_bc u = Inr rhs
           \<and> step_1d spsolve A B left_bc right_bc u = Inr (spsolve A rhs)
           \<and> length Bu = length u \<and> length rhs = length u
           \<and> rhs ! 0 = 2 * left_bc + u ! 1
           \<and> last rhs = 2 * right_bc + u ! (length u - 2)
           \<and> Bu ! 0 = u ! 1 \<and> last Bu = u ! (length u - 2)
           \<and> rhs = Bu[0 := 2 * left_bc + Bu ! 0, length u - 1 := 2 * right_bc + last Bu]"
proof -
  define m where "m = length u"
  have m2: "2 \<le> m"
    using assms(2) by (simp add: m_def)
  have size: "msize B = m"
    using assembled_1d(3)[OF assms(1)] by (simp add: m_def)
  have ent: "entry B i j = tridiagonal 0 1 i j" if "i < m" "j < m" for i j
    using assembled_1d(5)[OF assms(1), of i j] that by (simp add: m_def)
  define Bu where "Bu = map (\<lambda>i. \<Sum>j = 0..<m. entry B i j * u ! j) [0..<m]"
  define rhs where "rhs = Bu[0 := 2 * left_bc + u ! 1, m - 1 := 2 * right_bc + u ! (m - 2)]"
  have row: "Bu ! i = (\<Sum>j = 0..<m. tridiagonal 0 1 i j * u ! j)" if "i < m" for i
    using that by (simp add: Bu_def ent)
  have first: "Bu ! 0 = u ! 1"
    using m2 by (simp add: row tridiagonal_row)
  have "Bu ! (m - 1) = u ! (m - 2)"
    using m2 by (simp add: row tridiagonal_row diff_diff_eq numeral_2_eq_2)
  moreover have len: "length Bu = m"
    by (simp add: Bu_def)
  moreover have ne: "Bu \<noteq> []"
    using len m2 by auto
  ultimately have final: "last Bu = u ! (m - 2)"
    by (simp add: last_conv_nth)
  have prod: "matvec B u = Inr Bu"
    by (simp add: matvec_eq size m_def Bu_def)
  have rhs: "explicit_rhs B left_bc right_bc u = Inr rhs"
    using explicit_rhs_eq[of B u left_bc right_bc] size m2
    by (simp add: m_def rhs_def Bu_def)
  have "rhs ! 0 = 2 * left_bc + u ! 1"
    using m2 len by (simp add: rhs_def)
  moreover have "last rhs = 2 * right_bc + u ! (m - 2)"
    using m2 len ne by (simp add: rhs_def last_conv_nth)
  moreover have "rhs = Bu[0 := 2 * left_bc + Bu ! 0, m - 1 := 2 * right_bc + last Bu]"
    by (simp add: rhs_def first final)
  moreover have "step_1d spsolve A B left_bc right_bc u = Inr (spsolve A rhs)"
    by (simp add: step_1d_def rhs)
  moreover have "length rhs = m"
    by (simp add: rhs_def len)
  ultimately show ?thesis
    using prod rhs first final len unfolding m_def by blast
qed

theorem C6_boundary_injection_witness:
  "map_sum id (\<lambda>(A, B). map_sum id (\<lambda>rhs. (rhs ! 0, last rhs)) (explicit_rhs B 10 20 [5, 7, 11]))
     (assemble_1d 5) = Inr (Inr (2 * 10 + 7, 2 * 20 + 7))"
proof -
  obtain A B where AB: "assemble_1d 5 = Inr (A, B)"
    by (simp add: assemble_1d_eq)
  then have "assemble_1d (int (length [5, 7, 11 :: real]) + 2) = Inr (A, B)"
    by simp
  from C6_boundary_injection[OF this, of 10 20 direct_solve]
  obtain rhs where "explicit_rhs B 10 20 [5, 7, 11] = Inr rhs" "rhs ! 0 = 2 * 10 + 7"
    "last rhs = 2 * 20 + 7"
    by auto
  then show ?thesis
    using AB by simp
qed

subsection \<open>Linear systems with a strictly dominant diagonal\<close>

text \<open>
  A square system is given by its coefficients \<open>a i j\<close> for \<open>i, j < m\<close>. If every row is
  strictly dominated by its diagonal, only the zero vector is mapped to zero: at a cell
  of largest magnitude the diagonal term cannot be cancelled by the others.
\<close>

lemma dominant_kernel_trivial:
  fixes a :: "nat \<Rightarrow> nat \<Rightarrow> real"
  assumes dom: "\<And>i. i < m \<Longrightarrow> (\<Sum>j \<in> {0..<m} - {i}. \<bar>a i j\<bar>) < \<bar>a i i\<bar>"
    and ker: "\<And>i. i < m \<Longrightarrow> (\<Sum>j = 0..<m. a i j * y j) = 0"
    and k: "k < m"
  shows "y k = 0"
proof (rule ccontr)
  assume nz: "y k \<noteq> 0"
  define S where "S = (\<lambda>i. \<bar>y i\<bar>) ` {0..<m}"
  have "finite S" and "S \<noteq> {}"
    using k by (auto simp: S_def)
  then have "Max S \<in> S"
    by (rule Max_in)
  then obtain p where p: "p < m" and top: "Max S = \<bar>y p\<bar>"
    by (auto simp: S_def)
  have le: "\<bar>y j\<bar> \<le> \<bar>y p\<bar>" if "j < m" for j
    using that \<open>finite S\<close> unfolding top[symmetric] by (intro Max_ge) (auto simp: S_def)
  have pos: "0 < \<bar>y p\<bar>"
    using le[OF k] nz by linarith
  have "(\<Sum>j = 0..<m. a p j * y j) = a p p * y p + (\<Sum>j \<in> {0..<m} - {p}. a p j * y j)"
    using p by (intro sum.remove) auto
  then have "a p p * y p = - (\<Sum>j \<in> {0..<m} - {p}. a p j * y j)"
    using ker[OF p] by linarith
  then have "\<bar>a p p\<bar> * \<bar>y p\<bar> = \<bar>\<Sum>j \<in> {0..<m} - {p}. a p j * y j\<bar>"
    by (simp flip: abs_mult)
  also have "\<dots> \<le> (\<Sum>j \<in> {0..<m} - {p}. \<bar>a p j\<bar> * \<bar>y j\<bar>)"
    by (rule order_trans[OF sum_abs]) (simp add: abs_mult)
  also have "\<dots> \<le> (\<Sum>j \<in> {0..<m} - {p}. \<bar>a p j\<bar> * \<bar>y p\<bar>)"
    by (intro sum_mono mult_left_mono) (auto simp: le)
  also have "\<dots> = (\<Sum>j \<in> {0..<m} - {p}. \<bar>a p j\<bar>) * \<bar>y p\<bar>"
    by (simp add: sum_distrib_right)
  also have "\<dots> < \<bar>a p p\<bar> * \<bar>y p\<bar>"
    using dom[OF p] pos by simp
  finally show False
    by simp
qed

lemma dominant_solution_unique:
  fixes a :: "nat \<Rightarrow> nat \<Rightarrow> real"
  assumes dom: "\<And>i. i < m \<Longrightarrow> (\<Sum>j \<in> {0..<m} - {i}. \<bar>a i j\<bar>) < \<bar>a i i\<bar>"
    and x: "\<And>i. i < m \<Longrightarrow> (\<Sum>j = 0..<m. a i j * x j) = b i"
    and y: "\<And>i. i < m \<Longrightarrow> (\<Sum>j = 0..<m. a i j * y j) = b i"
    and k: "k < m"
  shows "x k = y k"
proof -
  have "(\<Sum>j = 0..<m. a i j * (x j - y j)) = 0" if "i < m" for i
    using x[OF that] y[OF that] by (simp add: right_diff_distrib sum_subtractf)
  with dom have "x k - y k = 0"
    using k by (rule dominant_kernel_trivial)
  then show ?thesis
    by simp
qed

text \<open>
  Existence of a solution needs a fact of linear algebra: a homogeneous system of \<open>m\<close>
  equations in more than \<open>m\<close> unknowns has a solution that is not zero. The unknowns are
  indexed by a finite set \<open>S\<close>, so that one can be eliminated in the induction step.
\<close>

lemma more_unknowns_than_equations:
  fixes v :: "'a \<Rightarrow> nat \<Rightarrow> real"
  assumes "finite S" and "m < card S"
  shows "\<exists>c. (\<exists>j \<in> S. c j \<noteq> 0) \<and> (\<forall>i<m. (\<Sum>j \<in> S. c j * v j i) = 0)"
  using assms
proof (induction m arbitrary: S v)
  case 0
  then have "S \<noteq> {}"
    by auto
  then obtain j where "j \<in> S"
    by blast
  then show ?case
    by (intro exI[of _ "\<lambda>_. 1"]) auto
next
  case (Suc m)
  have fin: "finite S" and more: "m < card S"
    using Suc.prems by simp_all
  show ?case
  proof (cases "\<forall>j \<in> S. v j m = 0")
    case True
    from Suc.IH[OF fin more, of v] obtain c
      where c: "\<exists>j \<in> S. c j \<noteq> 0" "\<forall>i<m. (\<Sum>j \<in> S. c j * v j i) = 0"
      by blast
    have "(\<Sum>j \<in> S. c j * v j m) = 0"
      using True by simp
    with c(2) have "\<forall>i<Suc m. (\<Sum>j \<in> S. c j * v j i) = 0"
      by (simp add: less_Suc_eq)
    with c(1) show ?thesis
      by blast
  next
    case False
    then obtain p where p: "p \<in> S" "v p m \<noteq> 0"
      by blast
    define T where "T = S - {p}"
    have T: "finite T" "m < card T"
      using Suc.prems p(1) by (simp_all add: T_def)
    define w where "w j i = v j i - (v j m / v p m) * v p i" for j i
    from Suc.IH[OF T, of w] obtain c
      where c: "\<exists>j \<in> T. c j \<noteq> 0" "\<forall>i<m. (\<Sum>j \<in> T. c j * w j i) = 0"
      by blast
    define t where "t = (\<Sum>j \<in> T. c j * v j m) / v p m"
    define c' where "c' j = (if j = p then - t else c j)" for j
    have split: "(\<Sum>j \<in> S. c' j * v j i) = - t * v p i + (\<Sum>j \<in> T. c j * v j i)" for i
    proof -
      have "(\<Sum>j \<in> S. c' j * v j i) = c' p * v p i + (\<Sum>j \<in> S - {p}. c' j * v j i)"
        using fin p(1) by (rule sum.remove)
      also have "(\<Sum>j \<in> S - {p}. c' j * v j i) = (\<Sum>j \<in> T. c j * v j i)"
        unfolding T_def by (rule sum.cong) (simp_all add: c'_def)
      finally show ?thesis
        by (simp add: c'_def)
    qed
    have "(\<Sum>j \<in> S. c' j * v j i) = 0" if "i < Suc m" for i
    proof (cases "i = m")
      case True
      then show ?thesis
        using p(2) by (simp add: split t_def)
    next
      case False
      with that have "i < m"
        by simp
      with c(2) have "(\<Sum>j \<in> T. c j * w j i) = 0"
        by simp
      moreover have "(\<Sum>j \<in> T. c j * w j i)
            = (\<Sum>j \<in> T. c j * v j i) - (\<Sum>j \<in> T. c j * v j m) / v p m * v p i"
        by (simp add: w_def right_diff_distrib sum_subtractf sum_distrib_right
            sum_divide_distrib mult.assoc)
      ultimately show ?thesis
        by (simp add: split t_def)
    qed
    moreover have "\<exists>j \<in> S. c' j \<noteq> 0"
      using c(1) by (auto simp: T_def c'_def)
    ultimately show ?thesis
      by blast
  qed
qed

text \<open>A square system that maps only zero to zero has a solution for every right-hand side.\<close>

lemma injective_system_solvable:
  fixes a :: "nat \<Rightarrow> nat \<Rightarrow> real"
  assumes inj: "\<And>y k. (\<And>i. i < m \<Longrightarrow> (\<Sum>j = 0..<m. a i j * y j) = 0) \<Longrightarrow> k < m \<Longrightarrow> y k = 0"
  shows "\<exists>x. \<forall>i<m. (\<Sum>j = 0..<m. a i j * x j) = b i"
proof -
  define v where "v j i = (if j < m then a i j else b i)" for j i
  have "finite {0..<Suc m}" and "m < card {0..<Suc m}"
    by simp_all
  from more_unknowns_than_equations[OF this, of v] obtain c
    where nz: "\<exists>j \<in> {0..<Suc m}. c j \<noteq> 0"
      and eq: "\<forall>i<m. (\<Sum>j \<in> {0..<Suc m}. c j * v j i) = 0"
    by blast
  have row: "(\<Sum>j = 0..<m. a i j * c j) + c m * b i = 0" if "i < m" for i
  proof -
    have "(\<Sum>j \<in> {0..<Suc m}. c j * v j i) = (\<Sum>j = 0..<m. c j * v j i) + c m * v m i"
      by simp
    also have "(\<Sum>j = 0..<m. c j * v j i) = (\<Sum>j = 0..<m. a i j * c j)"
      by (rule sum.cong) (simp_all add: v_def mult.commute)
    also have "v m i = b i"
      by (simp add: v_def)
    finally have "(\<Sum>j \<in> {0..<Suc m}. c j * v j i) = (\<Sum>j = 0..<m. a i j * c j) + c m * b i" .
    moreover from eq that have "(\<Sum>j \<in> {0..<Suc m}. c j * v j i) = 0"
      by blast
    ultimately show ?thesis
      by linarith
  qed
  have last: "c m \<noteq> 0"
  proof
    assume zero: "c m = 0"
    have "c k = 0" if "k < m" for k
    proof (rule inj[of c k])
      fix i assume "i < m"
      from row[OF this] zero show "(\<Sum>j = 0..<m. a i j * c j) = 0"
        by simp
    qed (rule that)
    with zero nz show False
      by (auto simp: less_Suc_eq)
  qed
  define q where "q = - 1 / c m"
  have "(\<Sum>j = 0..<m. a i j * (c j * q)) = b i" if "i < m" for i
  proof -
    have "(\<Sum>j = 0..<m. a i j * (c j * q)) = (\<Sum>j = 0..<m. a i j * c j) * q"
      by (simp only: sum_distrib_right mult.assoc)
    also have "(\<Sum>j = 0..<m. a i j * c j) = - (c m * b i)"
      using row[OF that] by linarith
    also have "- (c m * b i) * q = b i"
      using last by (simp add: q_def)
    finally show ?thesis .
  qed
  then show ?thesis
    by (intro exI[of _ "\<lambda>j. c j * q"]) simp
qed

subsection \<open>Sparse matrices as linear systems\<close>

lemma matvec_rows:
  "matvec A x = Inr b \<longleftrightarrow>
     length x = msize A \<and> length b = msize A
     \<and> (\<forall>i<msize A. (\<Sum>j = 0..<msize A. entry A i j * x ! j) = b ! i)"
  by (auto simp: matvec_Inr list_eq_iff_nth_eq)

lemma strictly_dominantD:
  "strictly_dominant A \<Longrightarrow> i < msize A \<Longrightarrow>
     (\<Sum>j \<in> {0..<msize A} - {i}. \<bar>entry A i j\<bar>) < \<bar>entry A i i\<bar>"
  by (simp add: strictly_dominant_def off_diagonal_sum_def)

lemma dominant_matrix_unique:
  assumes "strictly_dominant A" and "matvec A x = Inr b" and "matvec A y = Inr b"
  shows "x = y"
proof (rule nth_equalityI)
  show "length x = length y"
    using assms(2,3) by (simp add: matvec_rows)
  fix k assume "k < length x"
  then have k: "k < msize A"
    using assms(2) by (simp add: matvec_rows)
  show "x ! k = y ! k"
  proof (rule dominant_solution_unique[where a = "entry A" and m = "msize A" and b = "\<lambda>i. b ! i"])
    show "(\<Sum>j \<in> {0..<msize A} - {i}. \<bar>entry A i j\<bar>) < \<bar>entry A i i\<bar>" if "i < msize A" for i
      using assms(1) that by (rule strictly_dominantD)
    show "(\<Sum>j = 0..<msize A. entry A i j * x ! j) = b ! i" if "i < msize A" for i
      using assms(2) that by (simp add: matvec_rows)
    show "(\<Sum>j = 0..<msize A. entry A i j * y ! j) = b ! i" if "i < msize A" for i
      using assms(3) that by (simp add: matvec_rows)
  qed (rule k)
qed

lemma dominant_matrix_solvable:
  assumes "strictly_dominant A" and "length b = msize A"
  shows "\<exists>x. matvec A x = Inr b"
proof -
  have "\<exists>x. \<forall>i<msize A. (\<Sum>j = 0..<msize A. entry A i j * x j) = b ! i"
  proof (rule injective_system_solvable)
    fix y :: "nat \<Rightarrow> real" and k
    assume "\<And>i. i < msize A \<Longrightarrow> (\<Sum>j = 0..<msize A. entry A i j * y j) = 0" and "k < msize A"
    with strictly_dominantD[OF assms(1)] show "y k = 0"
      by (rule dominant_kernel_trivial)
  qed
  then obtain x where x: "\<And>i. i < msize A \<Longrightarrow> (\<Sum>j = 0..<msize A. entry A i j * x j) = b ! i"
    by blast
  have "matvec A (map x [0..<msize A]) = Inr b"
    unfolding matvec_rows using assms(2) x by simp
  then show ?thesis ..
qed

lemma dominant_matrix_unique_solution:
  assumes "strictly_dominant A" and "length b = msize A"
  shows "\<exists>!x. matvec A x = Inr b"
  using dominant_matrix_solvable[OF assms] dominant_matrix_unique[OF assms(1)] by blast

subsection \<open>Rows of the banded matrices\<close>

lemma tridiagonal_off_sum:
  assumes "i < m"
  shows "(\<Sum>j \<in> {0..<m} - {i}. \<bar>tridiagonal d e i j\<bar>)
         = (if 0 < i then \<bar>e\<bar> else 0) + (if i + 1 < m then \<bar>e\<bar> else 0)"
proof -
  have abs: "\<bar>tridiagonal d e i j\<bar> = tridiagonal \<bar>d\<bar> \<bar>e\<bar> i j * 1" for j
    by (simp add: tridiagonal_def)
  have "(\<Sum>j = 0..<m. \<bar>tridiagonal d e i j\<bar>)
        = \<bar>tridiagonal d e i i\<bar> + (\<Sum>j \<in> {0..<m} - {i}. \<bar>tridiagonal d e i j\<bar>)"
    using assms by (intro sum.remove) auto
  moreover have "(\<Sum>j = 0..<m. \<bar>tridiagonal d e i j\<bar>)
        = \<bar>d\<bar> + (if 0 < i then \<bar>e\<bar> else 0) + (if i + 1 < m then \<bar>e\<bar> else 0)"
    unfolding abs tridiagonal_row[OF assms] by simp
  moreover have "\<bar>tridiagonal d e i i\<bar> = \<bar>d\<bar>"
    by (simp add: tridiagonal_def)
  ultimately show ?thesis
    by linarith
qed

lemma five_banded_split:
  assumes "2 \<le> n"
  shows "five_banded n d e i j
         = tridiagonal d e i j + (if j = i - n then (if n \<le> i then e else 0) else 0)
           + (if j = i + n then e else 0)"
proof (cases "i = j \<or> i = j + 1 \<or> j = i + 1")
  case True
  with assms show ?thesis
    by (auto simp: five_banded_def tridiagonal_def)
next
  case False
  with assms show ?thesis
    by (auto simp: five_banded_def tridiagonal_def)
qed

lemma five_banded_row:
  assumes "i < m" and "2 \<le> n"
  shows "(\<Sum>j = 0..<m. five_banded n d e i j * x j)
         = d * x i + (if 0 < i then e * x (i - 1) else 0) + (if i + 1 < m then e * x (i + 1) else 0)
           + (if n \<le> i then e * x (i - n) else 0) + (if i + n < m then e * x (i + n) else 0)"
proof -
  have "five_banded n d e i j * x j
        = tridiagonal d e i j * x j
          + (if j = i - n then (if n \<le> i then e * x (i - n) else 0) else 0)
          + (if j = i + n then e * x (i + n) else 0)" for j
    unfolding five_banded_split[OF assms(2)] by (simp add: distrib_right)
  then have "(\<Sum>j = 0..<m. five_banded n d e i j * x j)
        = (\<Sum>j = 0..<m. tridiagonal d e i j * x j)
          + (\<Sum>j = 0..<m. if j = i - n then (if n \<le> i then e * x (i - n) else 0) else 0)
          + (\<Sum>j = 0..<m. if j = i + n then e * x (i + n) else 0)"
    by (simp add: sum.distrib)
  also have "(\<Sum>j = 0..<m. if j = i - n then (if n \<le> i then e * x (i - n) else 0) else 0)
        = (if n \<le> i then e * x (i - n) else 0)"
    using assms(1) by (auto simp: sum.delta)
  also have "(\<Sum>j = 0..<m. if j = i + n then e * x (i + n) else 0)
        = (if i + n < m then e * x (i + n) else 0)"
    by (simp add: sum.delta)
  finally show ?thesis
    by (simp add: tridiagonal_row[OF assms(1)])
qed

lemma five_banded_off_sum:
  assumes "i < m" and "2 \<le> n"
  shows "(\<Sum>j \<in> {0..<m} - {i}. \<bar>five_banded n d e i j\<bar>)
         = (if 0 < i then \<bar>e\<bar> else 0) + (if i + 1 < m then \<bar>e\<bar> else 0)
           + (if n \<le> i then \<bar>e\<bar> else 0) + (if i + n < m then \<bar>e\<bar> else 0)"
proof -
  have abs: "\<bar>five_banded n d e i j\<bar> = five_banded n \<bar>d\<bar> \<bar>e\<bar> i j * 1" for j
    by (simp add: five_banded_def)
  have "(\<Sum>j = 0..<m. \<bar>five_banded n d e i j\<bar>)
        = \<bar>five_banded n d e i i\<bar> + (\<Sum>j \<in> {0..<m} - {i}. \<bar>five_banded n d e i j\<bar>)"
    using assms by (intro sum.remove) auto
  moreover have "(\<Sum>j = 0..<m. \<bar>five_banded n d e i j\<bar>)
        = \<bar>d\<bar> + (if 0 < i then \<bar>e\<bar> else 0) + (if i + 1 < m then \<bar>e\<bar> else 0)
          + (if n \<le> i then \<bar>e\<bar> else 0) + (if i + n < m then \<bar>e\<bar> else 0)"
    unfolding abs five_banded_row[OF assms] by simp
  moreover have "\<bar>five_banded n d e i i\<bar> = \<bar>d\<bar>"
    by (simp add: five_banded_def)
  ultimately show ?thesis
    by linarith
qed

subsection \<open>Symmetry, dominance and unique solvability of the implicit matrices\<close>

lemma tridiagonal_sym: "tridiagonal d e i j = tridiagonal d e j i"
  unfolding tridiagonal_def by (cases "i = j") auto

lemma five_banded_sym: "five_banded n d e i j = five_banded n d e j i"
proof (cases "i = j")
  case True
  then show ?thesis by simp
next
  case False
  have "(i = j + 1 \<or> j = i + 1 \<or> i = j + n \<or> j = i + n)
        = (j = i + 1 \<or> i = j + 1 \<or> j = i + n \<or> i = j + n)"
    by blast
  with False show ?thesis
    unfolding five_banded_def by (simp add: eq_commute[of i j])
qed

lemma assembled_2d:
  assumes "2 \<le> N"
  shows "assemble_A_2d N r = Inr A \<Longrightarrow> msize A = nat N * nat N"
    and "assemble_M_2d N r = Inr M \<Longrightarrow> msize M = nat N * nat N"
    and "assemble_A_2d N r = Inr A \<Longrightarrow> i < nat N * nat N \<Longrightarrow> j < nat N * nat N \<Longrightarrow>
           entry A i j = five_banded (nat N) (1 + 4 * r) (- r) i j"
    and "assemble_M_2d N r = Inr M \<Longrightarrow> i < nat N * nat N \<Longrightarrow> j < nat N * nat N \<Longrightarrow>
           entry M i j = five_banded (nat N) (1 - 4 * r) r i j"
proof -
  show "msize A = nat N * nat N" if "assemble_A_2d N r = Inr A"
  proof (rule assemble_2d_entries[OF assms, of r])
    fix A' M' assume "assemble_A_2d N r = Inr A'" "msize A' = nat N * nat N"
    with that show ?thesis by simp
  qed
  show "msize M = nat N * nat N" if "assemble_M_2d N r = Inr M"
  proof (rule assemble_2d_entries[OF assms, of r])
    fix A' M' assume "assemble_M_2d N r = Inr M'" "msize M' = nat N * nat N"
    with that show ?thesis by simp
  qed
  show "entry A i j = five_banded (nat N) (1 + 4 * r) (- r) i j"
    if "assemble_A_2d N r = Inr A" "i < nat N * nat N" "j < nat N * nat N"
  proof (rule assemble_2d_entries[OF assms, of r])
    fix A' M' assume "assemble_A_2d N r = Inr A'"
      and e: "\<And>i j. i < nat N * nat N \<Longrightarrow> j < nat N * nat N \<Longrightarrow>
           entry A' i j = five_banded (nat N) (1 + 4 * r) (- r) i j"
    with that(1) have "A' = A" by simp
    with e[OF that(2,3)] show ?thesis by simp
  qed
  show "entry M i j = five_banded (nat N) (1 - 4 * r) r i j"
    if "assemble_M_2d N r = Inr M" "i < nat N * nat N" "j < nat N * nat N"
  proof (rule assemble_2d_entries[OF assms, of r])
    fix A' M' assume "assemble_M_2d N r = Inr M'"
      and e: "\<And>i j. i < nat N * nat N \<Longrightarrow> j < nat N * nat N \<Longrightarrow>
           entry M' i j = five_banded (nat N) (1 - 4 * r) r i j"
    with that(1) have "M' = M" by simp
    with e[OF that(2,3)] show ?thesis by simp
  qed
qed

lemma assembled_1d_dominant:
  assumes "assemble_1d N = Inr (A, B)"
  shows "symmetric A" and "strictly_dominant A"
    and "i < msize A \<Longrightarrow> \<bar>entry A i i\<bar> = 4 \<and> off_diagonal_sum A i \<le> 2"
proof -
  note a = assembled_1d[OF assms]
  have ent: "entry A i j = tridiagonal 4 (- 1) i j" if "i < msize A" "j < msize A" for i j
    using a(4)[of i j] that by (simp add: a(2))
  show "symmetric A"
    unfolding symmetric_def
  proof (intro ballI)
    fix i j assume "i \<in> {0..<msize A}" "j \<in> {0..<msize A}"
    then show "entry A i j = entry A j i"
      using tridiagonal_sym[of 4 "- 1" i j] by (simp add: ent)
  qed
  have off: "off_diagonal_sum A i = (if 0 < i then 1 else 0) + (if i + 1 < msize A then 1 else 0)"
    if "i < msize A" for i
  proof -
    have "off_diagonal_sum A i = (\<Sum>j \<in> {0..<msize A} - {i}. \<bar>tridiagonal 4 (- 1) i j\<bar>)"
      unfolding off_diagonal_sum_def using that by (intro sum.cong) (simp_all add: ent)
    then show ?thesis
      by (simp add: tridiagonal_off_sum[OF that])
  qed
  have diag: "\<bar>entry A i i\<bar> = 4" if "i < msize A" for i
    using that by (simp add: ent tridiagonal_def)
  show "strictly_dominant A"
    unfolding strictly_dominant_def
  proof
    fix i assume "i \<in> {0..<msize A}"
    then have i: "i < msize A"
      by simp
    show "off_diagonal_sum A i < \<bar>entry A i i\<bar>"
      unfolding off[OF i] diag[OF i] by simp
  qed
  show "i < msize A \<Longrightarrow> \<bar>entry A i i\<bar> = 4 \<and> off_diagonal_sum A i \<le> 2"
    by (simp add: off diag)
qed

lemma assembled_2d_dominant:
  assumes "2 \<le> N" and "0 < r" and "assemble_A_2d N r = Inr A"
  shows "symmetric A" and "strictly_dominant A"
    and "i < msize A \<Longrightarrow> \<bar>entry A i i\<bar> = 1 + 4 * r \<and> off_diagonal_sum A i \<le> 4 * r"
proof -
  note a = assembled_2d(1,3)[OF assms(1,3)]
  have size: "msize A = nat N * nat N"
    by (rule a(1))
  have ent: "entry A i j = five_banded (nat N) (1 + 4 * r) (- r) i j"
    if "i < msize A" "j < msize A" for i j
    using that by (intro a(2)) (simp_all add: size)
  have n2: "2 \<le> nat N"
    using assms(1) by simp
  show "symmetric A"
    unfolding symmetric_def
  proof (intro ballI)
    fix i j assume "i \<in> {0..<msize A}" "j \<in> {0..<msize A}"
    then show "entry A i j = entry A j i"
      using five_banded_sym[of "nat N" "1 + 4 * r" "- r" i j] by (simp add: ent)
  qed
  have off: "off_diagonal_sum A i
      = (if 0 < i then r else 0) + (if i + 1 < msize A then r else 0)
        + (if nat N \<le> i then r else 0) + (if i + nat N < msize A then r else 0)"
    if "i < msize A" for i
  proof -
    have "off_diagonal_sum A i
        = (\<Sum>j \<in> {0..<msize A} - {i}. \<bar>five_banded (nat N) (1 + 4 * r) (- r) i j\<bar>)"
      unfolding off_diagonal_sum_def using that by (intro sum.cong) (simp_all add: ent)
    then show ?thesis
      using assms(2) by (simp add: five_banded_off_sum[OF that n2])
  qed
  have diag: "\<bar>entry A i i\<bar> = 1 + 4 * r" if "i < msize A" for i
    using that assms(2) by (simp add: ent five_banded_def)
  have bound: "off_diagonal_sum A i \<le> 4 * r" if "i < msize A" for i
    unfolding off[OF that] using assms(2) by simp
  show "strictly_dominant A"
    unfolding strictly_dominant_def
  proof
    fix i assume "i \<in> {0..<msize A}"
    then have i: "i < msize A"
      by simp
    from bound[OF i] diag[OF i] show "off_diagonal_sum A i < \<bar>entry A i i\<bar>"
      by linarith
  qed
  show "i < msize A \<Longrightarrow> \<bar>entry A i i\<bar> = 1 + 4 * r \<and> off_diagonal_sum A i \<le> 4 * r"
    by (simp add: bound diag)
qed

lemma scaled_power:
  fixes x :: real
  assumes "k \<le> n"
  shows "x / 2 ^ k = x * 2 ^ (n - k) / 2 ^ n"
proof -
  have "(2::real) ^ n = 2 ^ (n - k) * 2 ^ k"
    using assms by (simp flip: power_add)
  then show ?thesis
    by simp
qed

lemma is_float64_small:
  assumes "\<bar>m\<bar> < 2 ^ 53" and "k \<le> 1074"
  shows "is_float64 (of_int m / 2 ^ k)"
  unfolding is_float64_def using assms scaled_power[OF assms(2), of "of_int m"]
  by (intro exI[of _ m] exI[of _ "1074 - k"]) (simp del: power_numeral)


text \<open>
  Claim C8, as the code has it. For every \<open>N \<ge> 3\<close> the assembled one-dimensional \<open>A\<close>
  is symmetric and strictly diagonally dominant: every diagonal entry has magnitude \<open>4\<close>
  and the other entries of a row sum to at most \<open>2\<close> in magnitude (the cell takes no
  \<open>r\<close>; these are \<open>2(1 + r)\<close> and \<open>2r\<close> at \<open>r = 1\<close> only). For every \<open>N \<ge> 3\<close> and
  every float64 value \<open>r > 0\<close> whose \<open>1 + 4r\<close> is a float64 value too, so that the diagonal
  the cell stores is \<open>1 + 4r\<close> itself (the notebook's \<open>r = 0.5\<close> is one), the
  two-dimensional \<open>A\<close> is symmetric and strictly dominant, with diagonal \<open>1 + 4r\<close> against
  at most \<open>4r\<close>. In both cases the equations \<open>A x = b\<close>, over the real numbers, have
  exactly one solution for every right-hand side \<open>b\<close> of the matrix's size.
\<close>

theorem C8_symmetric_dominant:
  "(3 \<le> N \<longrightarrow>
      (\<exists>A B. assemble_1d N = Inr (A, B) \<and> symmetric A \<and> strictly_dominant A
         \<and> (\<forall>i<msize A. \<bar>entry A i i\<bar> = 4 \<and> off_diagonal_sum A i \<le> 2)
         \<and> (\<forall>b. length b = msize A \<longrightarrow> (\<exists>!x. matvec A x = Inr b))))
   \<and> (3 \<le> N \<and> 0 < r \<and> is_float64 r \<and> is_float64 (1 + 4 * r) \<longrightarrow>
      (\<exists>A. assemble_A_2d N r = Inr A \<and> symmetric A \<and> strictly_dominant A
         \<and> (\<forall>i<msize A. \<bar>entry A i i\<bar> = 1 + 4 * r \<and> off_diagonal_sum A i \<le> 4 * r)
         \<and> (\<forall>b. length b = msize A \<longrightarrow> (\<exists>!x. matvec A x = Inr b))))"
proof (intro conjI impI)
  assume "3 \<le> N"
  then obtain A B where AB: "assemble_1d N = Inr (A, B)"
    by (simp add: assemble_1d_eq)
  note d = assembled_1d_dominant[OF AB]
  have "\<forall>i<msize A. \<bar>entry A i i\<bar> = 4 \<and> off_diagonal_sum A i \<le> 2"
    using d(3) by simp
  moreover have "\<forall>b. length b = msize A \<longrightarrow> (\<exists>!x. matvec A x = Inr b)"
    using dominant_matrix_unique_solution[OF d(2)] by simp
  ultimately show "\<exists>A B. assemble_1d N = Inr (A, B) \<and> symmetric A \<and> strictly_dominant A
         \<and> (\<forall>i<msize A. \<bar>entry A i i\<bar> = 4 \<and> off_diagonal_sum A i \<le> 2)
         \<and> (\<forall>b. length b = msize A \<longrightarrow> (\<exists>!x. matvec A x = Inr b))"
    using AB d(1,2) by (intro exI[of _ A] exI[of _ B]) simp
next
  assume "3 \<le> N \<and> 0 < r \<and> is_float64 r \<and> is_float64 (1 + 4 * r)"
  then have N: "2 \<le> N" and r: "0 < r"
    by simp_all
  obtain A where A: "assemble_A_2d N r = Inr A"
    using N by (simp add: assemble_A_2d_eq)
  note d = assembled_2d_dominant[OF N r A]
  have "\<forall>i<msize A. \<bar>entry A i i\<bar> = 1 + 4 * r \<and> off_diagonal_sum A i \<le> 4 * r"
    using d(3) by simp
  moreover have "\<forall>b. length b = msize A \<longrightarrow> (\<exists>!x. matvec A x = Inr b)"
    using dominant_matrix_unique_solution[OF d(2)] by simp
  ultimately show "\<exists>A. assemble_A_2d N r = Inr A \<and> symmetric A \<and> strictly_dominant A
         \<and> (\<forall>i<msize A. \<bar>entry A i i\<bar> = 1 + 4 * r \<and> off_diagonal_sum A i \<le> 4 * r)
         \<and> (\<forall>b. length b = msize A \<longrightarrow> (\<exists>!x. matvec A x = Inr b))"
    using A d(1,2) by (intro exI[of _ A]) simp
qed

theorem C8_symmetric_dominant_witness:
  "(\<exists>A B. assemble_1d 4 = Inr (A, B) \<and> symmetric A \<and> strictly_dominant A
      \<and> \<bar>entry A 1 1\<bar> = 4 \<and> off_diagonal_sum A 1 \<le> 2
      \<and> (\<exists>!x. matvec A x = Inr [3, 3]))
   \<and> (\<exists>A. assemble_A_2d 3 (1 / 2) = Inr A \<and> symmetric A \<and> strictly_dominant A
      \<and> \<bar>entry A 4 4\<bar> = 3 \<and> off_diagonal_sum A 4 \<le> 2
      \<and> (\<exists>!x. matvec A x = Inr [1, 0, 0, 0, 0, 0, 0, 0, 0]))"
proof
  from C8_symmetric_dominant[of 4 "1 / 2"] obtain A B
    where AB: "assemble_1d 4 = Inr (A, B)" "symmetric A" "strictly_dominant A"
      and row: "\<And>i. i < msize A \<Longrightarrow> \<bar>entry A i i\<bar> = 4 \<and> off_diagonal_sum A i \<le> 2"
      and sol: "\<And>b. length b = msize A \<Longrightarrow> \<exists>!x. matvec A x = Inr b"
    by auto
  have size: "msize A = 2"
    using assembled_1d(2)[OF AB(1)] by simp
  then have "\<exists>!x. matvec A x = Inr [3, 3]"
    by (intro sol) simp
  moreover have "\<bar>entry A 1 1\<bar> = 4 \<and> off_diagonal_sum A 1 \<le> 2"
    by (rule row) (simp add: size)
  ultimately show "\<exists>A B. assemble_1d 4 = Inr (A, B) \<and> symmetric A \<and> strictly_dominant A
      \<and> \<bar>entry A 1 1\<bar> = 4 \<and> off_diagonal_sum A 1 \<le> 2
      \<and> (\<exists>!x. matvec A x = Inr [3, 3])"
    using AB by (intro exI[of _ A] exI[of _ B]) simp
next
  have half: "is_float64 (1 / 2)"
    using is_float64_small[of 1 1] by simp
  have three: "is_float64 (1 + 4 * (1 / 2))"
    using is_float64_small[of 3 0] by simp
  from C8_symmetric_dominant[of 3 "1 / 2"] half three obtain A
    where A: "assemble_A_2d 3 (1 / 2) = Inr A" "symmetric A" "strictly_dominant A"
      and row: "\<And>i. i < msize A \<Longrightarrow> \<bar>entry A i i\<bar> = 1 + 4 * (1 / 2) \<and> off_diagonal_sum A i \<le> 4 * (1 / 2)"
      and sol: "\<And>b. length b = msize A \<Longrightarrow> \<exists>!x. matvec A x = Inr b"
    by auto
  have size: "msize A = 9"
    using assembled_2d(1)[OF _ A(1)] by simp
  then have "\<exists>!x. matvec A x = Inr [1, 0, 0, 0, 0, 0, 0, 0, 0]"
    by (intro sol) simp
  moreover have "\<bar>entry A 4 4\<bar> = 3 \<and> off_diagonal_sum A 4 \<le> 2"
    using row[of 4] by (simp add: size)
  ultimately show "\<exists>A. assemble_A_2d 3 (1 / 2) = Inr A \<and> symmetric A \<and> strictly_dominant A
      \<and> \<bar>entry A 4 4\<bar> = 3 \<and> off_diagonal_sum A 4 \<le> 2
      \<and> (\<exists>!x. matvec A x = Inr [1, 0, 0, 0, 0, 0, 0, 0, 0])"
    using A by (intro exI[of _ A]) simp
qed


text \<open>
  The claim as stated fails in one dimension at every \<open>r\<close> other than \<open>1\<close>: at
  \<open>r = 1/2\<close> its diagonal \<open>2(1 + r)\<close> is \<open>3\<close> and its off-diagonal sum \<open>2r\<close> is \<open>1\<close>,
  and row \<open>1\<close> of the matrix assembled for \<open>N = 5\<close> has \<open>4\<close> and \<open>2\<close>.
\<close>

theorem C8_general_r_counterexample:
  "map_sum id (\<lambda>(A, B). (\<bar>entry A 1 1\<bar>, off_diagonal_sum A 1)) (assemble_1d 5) = Inr (4, 2)
   \<and> (\<bar>A_spec_1d (1 / 2) 1 1\<bar>, \<bar>A_spec_1d (1 / 2) 1 0\<bar> + \<bar>A_spec_1d (1 / 2) 1 2\<bar>) = (3, 1)"
  by code_simp

subsection \<open>A constant field is a steady state of the one-dimensional step\<close>

lemma steady_rhs:
  assumes "assemble_1d N = Inr (A, B)" and "4 \<le> N"
  shows "explicit_rhs B v v (replicate (nat (N - 2)) v) = matvec A (replicate (nat (N - 2)) v)"
proof -
  define m where "m = nat (N - 2)"
  define u where "u = replicate m v"
  note a = assembled_1d[OF assms(1)]
  have m2: "2 \<le> m"
    using assms(2) by (simp add: m_def)
  have len: "length u = m"
    by (simp add: u_def)
  have rowA: "(\<Sum>j = 0..<m. entry A i j * u ! j)
      = 4 * v + (if 0 < i then - v else 0) + (if i + 1 < m then - v else 0)" if "i < m" for i
  proof -
    have "(\<Sum>j = 0..<m. entry A i j * u ! j) = (\<Sum>j = 0..<m. tridiagonal 4 (- 1) i j * v)"
      using that a(4)[of i] by (intro sum.cong) (simp_all add: m_def u_def)
    then show ?thesis
      by (simp add: tridiagonal_row[OF that])
  qed
  have rowB: "(\<Sum>j = 0..<m. entry B i j * u ! j)
      = (if 0 < i then v else 0) + (if i + 1 < m then v else 0)" if "i < m" for i
  proof -
    have "(\<Sum>j = 0..<m. entry B i j * u ! j) = (\<Sum>j = 0..<m. tridiagonal 0 1 i j * v)"
      using that a(5)[of i] by (intro sum.cong) (simp_all add: m_def u_def)
    then show ?thesis
      by (simp add: tridiagonal_row[OF that])
  qed
  have "explicit_rhs B v v u =
     Inr ((map (\<lambda>i. \<Sum>j = 0..<m. entry B i j * u ! j) [0..<m])
            [0 := 2 * v + u ! 1, m - 1 := 2 * v + u ! (m - 2)])"
    using explicit_rhs_eq[of B u v v] a(3) m2 by (simp add: len m_def)
  moreover have "matvec A u = Inr (map (\<lambda>i. \<Sum>j = 0..<m. entry A i j * u ! j) [0..<m])"
    using matvec_eq[of u A] a(2) by (simp add: len m_def)
  moreover have "(map (\<lambda>i. \<Sum>j = 0..<m. entry B i j * u ! j) [0..<m])
            [0 := 2 * v + u ! 1, m - 1 := 2 * v + u ! (m - 2)]
      = map (\<lambda>i. \<Sum>j = 0..<m. entry A i j * u ! j) [0..<m]"
  proof (rule nth_equalityI)
    fix i assume "i < length ((map (\<lambda>i. \<Sum>j = 0..<m. entry B i j * u ! j) [0..<m])
            [0 := 2 * v + u ! 1, m - 1 := 2 * v + u ! (m - 2)])"
    then have i: "i < m"
      by simp
    have cells: "u ! Suc 0 = v" "u ! (m - 2) = v"
      using m2 by (simp_all add: u_def)
    show "(map (\<lambda>i. \<Sum>j = 0..<m. entry B i j * u ! j) [0..<m])
            [0 := 2 * v + u ! 1, m - 1 := 2 * v + u ! (m - 2)] ! i
          = map (\<lambda>i. \<Sum>j = 0..<m. entry A i j * u ! j) [0..<m] ! i"
      using i m2 by (auto simp: nth_list_update rowA rowB cells)
  qed simp
  ultimately show ?thesis
    by (simp add: u_def m_def)
qed

lemma steady_product:
  assumes "assemble_1d N = Inr (A, B)"
  shows "matvec A (replicate (nat (N - 2)) v)
     = Inr (map (\<lambda>i. 4 * v + (if 0 < i then - v else 0) + (if i + 1 < nat (N - 2) then - v else 0))
              [0..<nat (N - 2)])"
proof -
  define m where "m = nat (N - 2)"
  define u where "u = replicate m v"
  note a = assembled_1d[OF assms]
  have len: "length u = m"
    by (simp add: u_def)
  have rowA: "(\<Sum>j = 0..<m. entry A i j * u ! j)
      = 4 * v + (if 0 < i then - v else 0) + (if i + 1 < m then - v else 0)" if "i < m" for i
  proof -
    have "(\<Sum>j = 0..<m. entry A i j * u ! j) = (\<Sum>j = 0..<m. tridiagonal 4 (- 1) i j * v)"
      using that a(4)[of i] by (intro sum.cong) (simp_all add: m_def u_def)
    then show ?thesis
      by (simp add: tridiagonal_row[OF that])
  qed
  have "matvec A u = Inr (map (\<lambda>i. \<Sum>j = 0..<m. entry A i j * u ! j) [0..<m])"
    using matvec_eq[of u A] a(2) by (simp add: len m_def)
  moreover have "map (\<lambda>i. \<Sum>j = 0..<m. entry A i j * u ! j) [0..<m]
      = map (\<lambda>i. 4 * v + (if 0 < i then - v else 0) + (if i + 1 < m then - v else 0)) [0..<m]"
    by (rule map_cong) (simp_all add: rowA)
  ultimately show ?thesis
    by (simp add: u_def m_def)
qed


text \<open>
  Claim C7, as the code has it. Take \<open>N \<ge> 4\<close>, a float64 value \<open>v\<close> whose multiples
  \<open>3v\<close> and \<open>4v\<close> are float64 values too (so that \<^verbatim>\<open>2*left_bc + left_side\<close>, and every
  sum in \<open>A\<close> applied to the field, is computed without rounding), and the field constant
  \<open>v\<close> between boundaries \<open>v\<close>. The right-hand side that the step hands to the solver is
  \<open>(3v, 2v, ..., 2v, 3v)\<close>. This is \<open>A\<close> applied to the field, and over the real numbers
  the field is the only solution of \<open>A x = rhs\<close>. The step returns what the solver returns
  for this system: it returns the field whenever the solver's answer satisfies the system
  exactly.
\<close>

theorem C7_steady_state:
  assumes "4 \<le> N" and "assemble_1d N = Inr (A, B)" and "u = replicate (nat (N - 2)) v"
    and "is_float64 v" and "is_float64 (3 * v)" and "is_float64 (4 * v)"
  shows "\<exists>rhs. explicit_rhs B v v u = Inr rhs
           \<and> step_1d spsolve A B v v u = Inr (spsolve A rhs)
           \<and> length rhs = nat (N - 2) \<and> rhs ! 0 = 3 * v \<and> last rhs = 3 * v
           \<and> (\<forall>i. 0 < i \<and> i + 1 < nat (N - 2) \<longrightarrow> rhs ! i = 2 * v)
           \<and> matvec A u = Inr rhs
           \<and> (\<forall>x. matvec A x = Inr rhs \<longrightarrow> x = u)
           \<and> (matvec A (spsolve A rhs) = Inr rhs \<longrightarrow> step_1d spsolve A B v v u = Inr u)"
proof -
  define m where "m = nat (N - 2)"
  define rhs
    where "rhs = map (\<lambda>i. 4 * v + (if 0 < i then - v else 0) + (if i + 1 < m then - v else 0)) [0..<m]"
  have m2: "2 \<le> m"
    using assms(1) by (simp add: m_def)
  have Au: "matvec A u = Inr rhs"
    unfolding assms(3) rhs_def m_def by (rule steady_product[OF assms(2)])
  have rhs: "explicit_rhs B v v u = Inr rhs"
    using steady_rhs[OF assms(2,1), of v] Au assms(3) by simp
  have solve: "step_1d spsolve A B v v u = Inr (spsolve A rhs)"
    unfolding step_1d_def rhs bindE_Inr ..
  have dom: "strictly_dominant A"
    by (rule assembled_1d_dominant(2)[OF assms(2)])
  have only: "x = u" if "matvec A x = Inr rhs" for x
    using dom that Au by (rule dominant_matrix_unique)
  have step: "step_1d spsolve A B v v u = Inr u" if "matvec A (spsolve A rhs) = Inr rhs"
    unfolding solve only[OF that] ..
  have len: "length rhs = m"
    by (simp add: rhs_def)
  have first: "rhs ! 0 = 3 * v"
    using m2 by (simp add: rhs_def)
  have "rhs \<noteq> []"
    using m2 len by auto
  then have "last rhs = rhs ! (m - 1)"
    by (simp add: last_conv_nth len)
  then have final: "last rhs = 3 * v"
    using m2 by (simp add: rhs_def)
  have middle: "rhs ! i = 2 * v" if "0 < i \<and> i + 1 < m" for i
    using that by (simp add: rhs_def)
  show ?thesis
  proof (intro exI[of _ rhs] conjI allI impI)
    show "explicit_rhs B v v u = Inr rhs" by (rule rhs)
    show "step_1d spsolve A B v v u = Inr (spsolve A rhs)" by (rule solve)
    show "length rhs = nat (N - 2)" using len by (simp add: m_def)
    show "rhs ! 0 = 3 * v" by (rule first)
    show "last rhs = 3 * v" by (rule final)
    show "rhs ! i = 2 * v" if "0 < i \<and> i + 1 < nat (N - 2)" for i
      using that middle[of i] by (simp add: m_def)
    show "matvec A u = Inr rhs" by (rule Au)
    show "x = u" if "matvec A x = Inr rhs" for x using that by (rule only)
    show "step_1d spsolve A B v v u = Inr u" if "matvec A (spsolve A rhs) = Inr rhs"
      using that by (rule step)
  qed
qed

theorem C7_steady_state_witness:
  "map_sum id (\<lambda>(A, B). (explicit_rhs B 7 7 [7, 7, 7], step_1d direct_solve A B 7 7 [7, 7, 7]))
     (assemble_1d 5) = Inr (Inr [21, 14, 21], Inr [7, 7, 7])"
proof -
  obtain A B where AB: "assemble_1d 5 = Inr (A, B)"
    by (simp add: assemble_1d_eq)
  have u: "[7, 7, 7] = replicate (nat (5 - 2)) (7::real)"
    by (simp add: eval_nat_numeral)
  have v: "is_float64 7" "is_float64 (3 * 7)" "is_float64 (4 * 7)"
    using is_float64_small[of 7 0] is_float64_small[of 21 0] is_float64_small[of 28 0]
    by simp_all
  have N: "(4::int) \<le> 5"
    by simp
  from C7_steady_state[OF N AB u v, of direct_solve] obtain rhs
    where r: "explicit_rhs B 7 7 [7, 7, 7] = Inr rhs
           \<and> step_1d direct_solve A B 7 7 [7, 7, 7] = Inr (direct_solve A rhs)
           \<and> length rhs = nat (5 - 2) \<and> rhs ! 0 = 3 * 7 \<and> last rhs = 3 * 7
           \<and> (\<forall>i. 0 < i \<and> i + 1 < nat (5 - 2) \<longrightarrow> rhs ! i = 2 * 7)
           \<and> matvec A [7, 7, 7] = Inr rhs
           \<and> (\<forall>x. matvec A x = Inr rhs \<longrightarrow> x = [7, 7, 7])
           \<and> (matvec A (direct_solve A rhs) = Inr rhs
                \<longrightarrow> step_1d direct_solve A B 7 7 [7, 7, 7] = Inr [7, 7, 7])"
    by (rule exE)
  note rhs = r[THEN conjunct1]
  have len: "length rhs = 3"
    using r[THEN conjunct2, THEN conjunct2, THEN conjunct1] by simp
  have first: "rhs ! 0 = 21"
    using r[THEN conjunct2, THEN conjunct2, THEN conjunct2, THEN conjunct1] by simp
  have final: "last rhs = 21"
    using r[THEN conjunct2, THEN conjunct2, THEN conjunct2, THEN conjunct2, THEN conjunct1]
    by simp
  have middle: "rhs ! 1 = 14"
    using r[THEN conjunct2, THEN conjunct2, THEN conjunct2, THEN conjunct2, THEN conjunct2,
        THEN conjunct1, THEN spec, of 1]
    by simp
  note step = r[THEN conjunct2, THEN conjunct2, THEN conjunct2, THEN conjunct2, THEN conjunct2,
        THEN conjunct2, THEN conjunct2, THEN conjunct2, THEN mp]
  obtain x y z where xyz: "rhs = [x, y, z]"
    using len by (auto simp: length_Suc_conv eval_nat_numeral)
  have vec: "rhs = [21, 14, 21]"
    using first middle final by (simp add: xyz)
  have solved: "map_sum id (\<lambda>(A, B). matvec A (direct_solve A [21, 14, 21])) (assemble_1d 5)
      = Inr (Inr [21, 14, 21])"
    by code_simp
  have "matvec A (direct_solve A [21, 14, 21]) = Inr [21, 14, 21]"
    using solved by (simp add: AB)
  then have "step_1d direct_solve A B 7 7 [7, 7, 7] = Inr [7, 7, 7]"
    unfolding vec[symmetric] by (rule step)
  then show ?thesis
    using AB rhs vec by simp
qed

text \<open>
  The claim as stated fails at \<open>N = 3\<close>: the interior field has one cell, and the read
  \<open>interior_points[1]\<close> raises IndexError before anything is solved.
\<close>

theorem C7_single_cell_counterexample:
  "map_sum id (\<lambda>(A, B). step_1d direct_solve A B 7 7 (replicate (nat (3 - 2)) 7)) (assemble_1d 3)
     = Inr (Inl IndexError)"
  by (simp add: assemble_1d_eq step_1d_def explicit_rhs_def getitem_def index_py_def)

subsection \<open>Loops over a range\<close>

lemma range_py_step: "int a < b \<Longrightarrow> range_py a b = int a # range_py (Suc a) b"
  by (simp add: range_py_def upt_conv_Cons)

lemma range_py_empty: "b \<le> int a \<Longrightarrow> range_py a b = []"
  by (simp add: range_py_def)

text \<open>
  An invariant \<open>P k t\<close> of the state \<open>t\<close> before the iteration of index \<open>k\<close>: if every
  iteration that returns keeps it, a loop that returns ends in it.
\<close>

lemma foldE_range_invariant:
  assumes "foldE f s0 (range_py a b) = Inr s" and "P a s0"
    and "\<And>k t t'. a \<le> k \<Longrightarrow> int k < b \<Longrightarrow> P k t \<Longrightarrow> f t (int k) = Inr t' \<Longrightarrow> P (Suc k) t'"
  shows "P (max a (nat b)) s"
  using assms
proof (induction "nat b - a" arbitrary: a s0)
  case 0
  then have "b \<le> int a" and "max a (nat b) = a"
    by linarith+
  with "0.prems" show ?case
    by (simp add: range_py_empty)
next
  case (Suc n)
  then have less: "int a < b"
    by linarith
  with Suc.prems(1) obtain t where t: "f s0 (int a) = Inr t"
    and rest: "foldE f t (range_py (Suc a) b) = Inr s"
    by (auto simp: range_py_step bindE_eq_Inr)
  have "P (Suc a) t"
    using Suc.prems(3)[OF _ less Suc.prems(2) t] by simp
  moreover have "n = nat b - Suc a"
    using Suc.hyps(2) by simp
  ultimately have "P (max (Suc a) (nat b)) s"
    using rest Suc.prems(3) by (intro Suc.hyps(1)) simp_all
  moreover have "max (Suc a) (nat b) = max a (nat b)"
    using less by simp
  ultimately show ?case
    by simp
qed

text \<open>The same for a loop in which every iteration returns: then the loop returns.\<close>

lemma foldE_range_total:
  assumes "P a s0"
    and "\<And>k t. a \<le> k \<Longrightarrow> int k < b \<Longrightarrow> P k t \<Longrightarrow> \<exists>t'. f t (int k) = Inr t' \<and> P (Suc k) t'"
  shows "\<exists>s. foldE f s0 (range_py a b) = Inr s \<and> P (max a (nat b)) s"
  using assms
proof (induction "nat b - a" arbitrary: a s0)
  case 0
  then have "b \<le> int a" and "max a (nat b) = a"
    by linarith+
  with "0.prems" show ?case
    by (simp add: range_py_empty)
next
  case (Suc n)
  then have less: "int a < b"
    by linarith
  from Suc.prems(2)[OF _ less Suc.prems(1)] obtain t
    where t: "f s0 (int a) = Inr t" and Pt: "P (Suc a) t"
    by auto
  have "n = nat b - Suc a"
    using Suc.hyps(2) by simp
  then have "\<exists>s. foldE f t (range_py (Suc a) b) = Inr s \<and> P (max (Suc a) (nat b)) s"
    using Pt Suc.prems(2) by (intro Suc.hyps(1)) simp_all
  moreover have "max (Suc a) (nat b) = max a (nat b)"
    using less by simp
  ultimately show ?case
    by (simp add: range_py_step[OF less] t)
qed

subsection \<open>The one-dimensional run\<close>

lemma setrow_eq:
  "k < length rows \<Longrightarrow> length v = length (rows ! k) \<Longrightarrow> setrow rows (int k) v = Inr (rows[k := v])"
  by (simp add: setrow_def getitem_nat setitem_nat)

lemma initial_configuration_eq:
  assumes "1 \<le> N"
  shows "initial_configuration N left_bc right_bc =
     Inr ((fill_slice (replicate (nat N) 0) (4 * N div 10) (6 * N div 10) 100)
            [0 := left_bc, nat N - 1 := right_bc])"
proof -
  have len: "length (fill_slice (replicate (nat N) 0) a b c) = nat N" for a b c
    by (simp add: fill_slice_def)
  have "0 < nat N"
    using assms by simp
  then show ?thesis
    using setitem_nat[of 0 "fill_slice (replicate (nat N) 0) (4 * N div 10) (6 * N div 10) 100" left_bc]
      setitem_from_end[of 1 "(fill_slice (replicate (nat N) 0) (4 * N div 10) (6 * N div 10) 100)[0 := left_bc]" right_bc]
    by (simp add: initial_configuration_def np_zeros_def np_full_def len)
qed

lemma initial_configuration_edges:
  assumes "initial_configuration N left_bc right_bc = Inr a" and "2 \<le> N"
  shows "length a = nat N" and "a ! 0 = left_bc" and "last a = right_bc"
proof -
  have len: "length (fill_slice (replicate (nat N) 0) x y c) = nat N" for x y c
    by (simp add: fill_slice_def)
  have a: "a = (fill_slice (replicate (nat N) 0) (4 * N div 10) (6 * N div 10) 100)
            [0 := left_bc, nat N - 1 := right_bc]"
    using assms initial_configuration_eq[of N left_bc right_bc] by simp
  show la: "length a = nat N"
    by (simp add: a len)
  show "a ! 0 = left_bc"
    using assms(2) by (simp add: a len)
  have "a \<noteq> []"
    using la assms(2) by auto
  then have "last a = a ! (nat N - 1)"
    by (simp add: last_conv_nth la)
  also have "\<dots> = right_bc"
    using assms(2) by (simp add: a len)
  finally show "last a = right_bc" .
qed

text \<open>The state in which the loop starts, and the run as that loop.\<close>

lemma run_1d_loop:
  assumes "initial_configuration N left_bc right_bc = Inr a" and "assemble_1d N = Inr (A, B)"
    and "1 \<le> t_end"
  shows "run_1d spsolve N left_bc right_bc t_end =
     foldE (body_1d spsolve A B left_bc right_bc)
       \<lparr>arr = a, interior_points = butlast (tl a),
        storage = (replicate (nat t_end) (replicate (nat (N - 2)) 0))[0 := butlast (tl a)],
        solver_calls = 0\<rparr>
       (range_py 1 t_end)"
proof -
  have N: "3 \<le> N"
    by (rule assembled_1d(1)[OF assms(2)])
  have "length a = nat N"
    using initial_configuration_edges(1)[OF assms(1)] N by simp
  then have len: "length (butlast (tl a)) = nat (N - 2)"
    using N by (simp add: nat_diff_distrib')
  have "setrow (replicate (nat t_end) (replicate (nat (N - 2)) 0)) (int 0) (butlast (tl a))
        = Inr ((replicate (nat t_end) (replicate (nat (N - 2)) 0))[0 := butlast (tl a)])"
    using assms(3) len by (intro setrow_eq) simp_all
  then show ?thesis
    using assms N by (simp add: run_1d_def np_zeros2_def)
qed

lemma run_1d_returns:
  assumes "run_1d spsolve N left_bc right_bc t_end = Inr s"
  obtains a A B where "initial_configuration N left_bc right_bc = Inr a"
    and "assemble_1d N = Inr (A, B)" and "3 \<le> N" and "1 \<le> t_end"
proof -
  from assms obtain a AB where a: "initial_configuration N left_bc right_bc = Inr a"
    and AB: "assemble_1d N = Inr AB"
    by (auto simp: run_1d_def bindE_eq_Inr)
  obtain A B where "AB = (A, B)"
    by (cases AB)
  with AB have AB': "assemble_1d N = Inr (A, B)"
    by simp
  have N: "3 \<le> N"
    by (rule assembled_1d(1)[OF AB'])
  have "1 \<le> t_end"
  proof (rule ccontr)
    assume "\<not> 1 \<le> t_end"
    then have "t_end < 0 \<or> t_end = 0"
      by linarith
    then have "isl (run_1d spsolve N left_bc right_bc t_end)"
      using a AB' N
      by (auto simp: run_1d_def np_zeros2_def setrow_def getitem_def index_py_def)
    with assms show False
      by simp
  qed
  with a AB' N show ?thesis
    by (rule that)
qed

lemma setrow_Inr:
  assumes "setrow rows (int k) v = Inr rows'"
  shows "k < length rows"
    and "\<exists>w. rows' = rows[k := w] \<and> length w = length (rows ! k)
            \<and> (length v = length (rows ! k) \<longrightarrow> w = v)"
proof -
  from assms obtain k' where k': "index_py (length rows) (int k) = Inr k'"
    by (auto simp: setrow_def getitem_def bindE_eq_Inr)
  then show k: "k < length rows"
    by (auto simp: index_py_def split: if_splits)
  then have idx: "index_py (length rows) (int k) = Inr k"
    by (rule index_py_nat)
  show "\<exists>w. rows' = rows[k := w] \<and> length w = length (rows ! k)
            \<and> (length v = length (rows ! k) \<longrightarrow> w = v)"
  proof (cases "length v = length (rows ! k)")
    case True
    with assms idx have "rows' = rows[k := v]"
      by (simp add: setrow_def getitem_def setitem_def)
    with True show ?thesis
      by (intro exI[of _ v]) simp
  next
    case False
    with assms idx have "rows' = rows[k := replicate (length (rows ! k)) (hd v)]"
      by (simp add: setrow_def getitem_def setitem_def split: if_splits)
    with False show ?thesis
      by (intro exI[of _ "replicate (length (rows ! k)) (hd v)"]) simp
  qed
qed

lemma explicit_rhs_length:
  assumes "explicit_rhs B left_bc right_bc u = Inr rhs"
  shows "length rhs = msize B" and "length u = msize B"
proof -
  from assms obtain p p1 v0 v1 where p: "matvec B u = Inr p"
    and "setitem p 0 v0 = Inr p1" and "setitem p1 (- 1) v1 = Inr rhs"
    by (auto simp: explicit_rhs_def bindE_eq_Inr)
  then have "length rhs = length p"
    by (simp add: setitem_length)
  with p show "length rhs = msize B" and "length u = msize B"
    by (simp_all add: matvec_rows)
qed

text \<open>What one iteration of the one-dimensional loop leaves alone, and what it writes.\<close>

lemma body_1d_Inr:
  assumes "body_1d spsolve A B left_bc right_bc t (int k) = Inr t'"
  obtains x w where "step_1d spsolve A B left_bc right_bc (interior_points t) = Inr x"
    and "k < length (storage t)"
    and "t' = t\<lparr>interior_points := x, storage := (storage t)[k := w],
                 solver_calls := Suc (solver_calls t)\<rparr>"
    and "length w = length (storage t ! k)"
    and "length x = length (storage t ! k) \<longrightarrow> w = x"
proof -
  from assms obtain x st where x: "step_1d spsolve A B left_bc right_bc (interior_points t) = Inr x"
    and st: "setrow (storage t) (int k) x = Inr st"
    and t': "t' = t\<lparr>interior_points := x, storage := st, solver_calls := Suc (solver_calls t)\<rparr>"
    by (auto simp: body_1d_def bindE_eq_Inr)
  from setrow_Inr[OF st] obtain w where "k < length (storage t)" "st = (storage t)[k := w]"
    "length w = length (storage t ! k)" "length x = length (storage t ! k) \<longrightarrow> w = x"
    by auto
  with x t' show ?thesis
    by (intro that[of x w]) simp_all
qed

lemma step_1d_length:
  assumes "step_1d spsolve A B left_bc right_bc u = Inr x" and "shape_preserving spsolve"
    and "msize A = msize B"
  shows "length x = length u"
proof -
  from assms(1) obtain rhs where rhs: "explicit_rhs B left_bc right_bc u = Inr rhs"
    and x: "x = spsolve A rhs"
    by (auto simp: step_1d_def bindE_eq_Inr)
  from explicit_rhs_length[OF rhs] assms(2,3) show ?thesis
    by (simp add: x shape_preserving_def)
qed

text \<open>
  Whatever the solver returns, a run that ends has not written \<open>arr\<close>, has kept the
  shape of \<open>storage\<close> and its row \<open>0\<close>, and has called the solver once in each
  iteration.
\<close>

lemma run_1d_shape:
  assumes "run_1d spsolve N left_bc right_bc t_end = Inr s"
  shows "initial_configuration N left_bc right_bc = Inr (arr s)"
    and "map length (storage s) = replicate (nat t_end) (nat (N - 2))"
    and "storage s ! 0 = butlast (tl (arr s))"
    and "solver_calls s = nat t_end - 1"
proof -
  from assms obtain a A B where a: "initial_configuration N left_bc right_bc = Inr a"
    and AB: "assemble_1d N = Inr (A, B)" and N: "3 \<le> N" and T: "1 \<le> t_end"
    by (rule run_1d_returns)
  define m where "m = nat (N - 2)"
  define P where "P k t \<longleftrightarrow> arr t = a \<and> map length (storage t) = replicate (nat t_end) m
      \<and> storage t ! 0 = butlast (tl a) \<and> solver_calls t = k - 1 \<and> 1 \<le> k"
    for k and t :: state_1d
  have "length a = nat N"
    using initial_configuration_edges(1)[OF a] N by simp
  then have len: "length (butlast (tl a)) = m"
    using N by (simp add: m_def nat_diff_distrib')
  have start: "P 1 \<lparr>arr = a, interior_points = butlast (tl a),
        storage = (replicate (nat t_end) (replicate m 0))[0 := butlast (tl a)], solver_calls = 0\<rparr>"
    using T len by (simp add: P_def map_update list_update_same_conv)
  have keep: "P (Suc k) t'"
    if "1 \<le> k" "P k t" "body_1d spsolve A B left_bc right_bc t (int k) = Inr t'" for k t t'
  proof -
    from that(3) obtain x w where k: "k < length (storage t)"
      and t': "t' = t\<lparr>interior_points := x, storage := (storage t)[k := w],
                 solver_calls := Suc (solver_calls t)\<rparr>"
      and w: "length w = length (storage t ! k)"
      by (rule body_1d_Inr)
    have "map length ((storage t)[k := w]) = map length (storage t)"
      using k w by (simp add: map_update list_update_same_conv)
    with that(1,2) show ?thesis
      by (simp add: P_def t')
  qed
  have "P (max 1 (nat t_end)) s"
  proof (rule foldE_range_invariant[where P = P, OF _ start])
    show "foldE (body_1d spsolve A B left_bc right_bc)
        \<lparr>arr = a, interior_points = butlast (tl a),
         storage = (replicate (nat t_end) (replicate m 0))[0 := butlast (tl a)],
         solver_calls = 0\<rparr> (range_py 1 t_end) = Inr s"
      using assms run_1d_loop[OF a AB T, of spsolve] by (simp add: m_def)
  qed (rule keep)
  moreover have "max 1 (nat t_end) = nat t_end"
    using T by simp
  ultimately have "P (nat t_end) s"
    by simp
  then show "initial_configuration N left_bc right_bc = Inr (arr s)"
    and "map length (storage s) = replicate (nat t_end) (nat (N - 2))"
    and "storage s ! 0 = butlast (tl (arr s))"
    and "solver_calls s = nat t_end - 1"
    using a by (simp_all add: P_def m_def)
qed

lemma update_keeps_shape:
  "k < length rows \<Longrightarrow> length v = length (rows ! k) \<Longrightarrow>
     map length (rows[k := v]) = map length rows"
  by (simp add: map_update list_update_same_conv)

text \<open>
  With a solver that keeps shapes, row \<open>i\<close> of \<open>storage\<close> is the step applied to row
  \<open>i - 1\<close>, and the loop variable ends as the last row.
\<close>

lemma run_1d_trajectory:
  assumes "run_1d spsolve N left_bc right_bc t_end = Inr s" and "shape_preserving spsolve"
    and "assemble_1d N = Inr (A, B)"
  shows "interior_points s = storage s ! (nat t_end - 1)"
    and "1 \<le> i \<Longrightarrow> i < nat t_end \<Longrightarrow>
           step_1d spsolve A B left_bc right_bc (storage s ! (i - 1)) = Inr (storage s ! i)"
proof -
  from assms(1) obtain a A' B' where a: "initial_configuration N left_bc right_bc = Inr a"
    and "assemble_1d N = Inr (A', B')" and N: "3 \<le> N" and T: "1 \<le> t_end"
    by (rule run_1d_returns)
  note AB = assms(3)
  define m where "m = nat (N - 2)"
  have sizes: "msize A = msize B"
    using assembled_1d(2,3)[OF AB] by simp
  define P where "P k t \<longleftrightarrow> 1 \<le> k
      \<and> map length (storage t) = replicate (nat t_end) m \<and> length (interior_points t) = m
      \<and> storage t ! (k - 1) = interior_points t
      \<and> (\<forall>i. 1 \<le> i \<and> i < k \<longrightarrow>
            step_1d spsolve A B left_bc right_bc (storage t ! (i - 1)) = Inr (storage t ! i))"
    for k and t :: state_1d
  have "length a = nat N"
    using initial_configuration_edges(1)[OF a] N by simp
  then have len: "length (butlast (tl a)) = m"
    using N by (simp add: m_def nat_diff_distrib')
  have start: "P 1 \<lparr>arr = a, interior_points = butlast (tl a),
        storage = (replicate (nat t_end) (replicate m 0))[0 := butlast (tl a)], solver_calls = 0\<rparr>"
    using T len by (simp add: P_def map_update list_update_same_conv)
  have keep: "P (Suc k) t'"
    if "1 \<le> k" "P k t" "body_1d spsolve A B left_bc right_bc t (int k) = Inr t'" for k t t'
  proof -
    from that(3) obtain x w
      where x: "step_1d spsolve A B left_bc right_bc (interior_points t) = Inr x"
        and k: "k < length (storage t)"
        and t': "t' = t\<lparr>interior_points := x, storage := (storage t)[k := w],
                 solver_calls := Suc (solver_calls t)\<rparr>"
        and "length w = length (storage t ! k)"
        and w: "length x = length (storage t ! k) \<longrightarrow> w = x"
      by (rule body_1d_Inr)
    have shape: "map length (storage t) = replicate (nat t_end) m"
      and ip: "length (interior_points t) = m"
      and prev: "storage t ! (k - 1) = interior_points t"
      and hist: "\<And>i. 1 \<le> i \<Longrightarrow> i < k \<Longrightarrow>
            step_1d spsolve A B left_bc right_bc (storage t ! (i - 1)) = Inr (storage t ! i)"
      using that(2) by (simp_all add: P_def)
    have "length (storage t ! k) = map length (storage t) ! k"
      using k by simp
    also have "\<dots> = m"
      using k shape by (metis length_map length_replicate nth_replicate)
    finally have row: "length (storage t ! k) = m" .
    have lx: "length x = m"
      using step_1d_length[OF x assms(2) sizes] ip by simp
    then have wx: "w = x"
      using w row by simp
    have st: "storage t' = (storage t)[k := x]" "interior_points t' = x"
      by (simp_all add: t' wx)
    have "map length ((storage t)[k := x]) = map length (storage t)"
      using k lx row by (intro update_keeps_shape) simp_all
    then have shape': "map length (storage t') = replicate (nat t_end) m"
      using shape by (simp add: st)
    have prev': "storage t' ! (Suc k - 1) = interior_points t'"
      using k by (simp add: st)
    have hist': "step_1d spsolve A B left_bc right_bc (storage t' ! (i - 1)) = Inr (storage t' ! i)"
      if i: "1 \<le> i" "i < Suc k" for i
    proof (cases "i = k")
      case True
      then have "storage t' ! (i - 1) = interior_points t" and "storage t' ! i = x"
        using k \<open>1 \<le> k\<close> prev by (simp_all add: st)
      with x show ?thesis
        by simp
    next
      case False
      with i have "i < k"
        by simp
      then have "storage t' ! (i - 1) = storage t ! (i - 1)" and "storage t' ! i = storage t ! i"
        by (simp_all add: st)
      with hist[OF i(1) \<open>i < k\<close>] show ?thesis
        by simp
    qed
    show ?thesis
      unfolding P_def
    proof (intro conjI allI impI)
      show "1 \<le> Suc k"
        by simp
      show "map length (storage t') = replicate (nat t_end) m"
        by (rule shape')
      show "length (interior_points t') = m"
        using lx by (simp add: st)
      show "storage t' ! (Suc k - 1) = interior_points t'"
        by (rule prev')
      show "step_1d spsolve A B left_bc right_bc (storage t' ! (i - 1)) = Inr (storage t' ! i)"
        if "1 \<le> i \<and> i < Suc k" for i
        using that by (intro hist') simp_all
    qed
  qed
  have "P (max 1 (nat t_end)) s"
  proof (rule foldE_range_invariant[where P = P, OF _ start])
    show "foldE (body_1d spsolve A B left_bc right_bc)
        \<lparr>arr = a, interior_points = butlast (tl a),
         storage = (replicate (nat t_end) (replicate m 0))[0 := butlast (tl a)],
         solver_calls = 0\<rparr> (range_py 1 t_end) = Inr s"
      using assms(1) run_1d_loop[OF a AB T, of spsolve] by (simp add: m_def)
  qed (rule keep)
  moreover have "max 1 (nat t_end) = nat t_end"
    using T by simp
  ultimately have P: "P (nat t_end) s"
    by simp
  then show "interior_points s = storage s ! (nat t_end - 1)"
    by (simp add: P_def)
  show "step_1d spsolve A B left_bc right_bc (storage s ! (i - 1)) = Inr (storage s ! i)"
    if "1 \<le> i" "i < nat t_end"
    using P that by (simp add: P_def)
qed

text \<open>From four grid cells on, with a solver that keeps shapes, the run ends.\<close>

lemma run_1d_total:
  assumes "4 \<le> N" and "1 \<le> t_end" and "shape_preserving spsolve"
  shows "\<exists>s. run_1d spsolve N left_bc right_bc t_end = Inr s"
proof -
  obtain a where a: "initial_configuration N left_bc right_bc = Inr a"
    using assms(1) by (simp add: initial_configuration_eq)
  obtain A B where AB: "assemble_1d N = Inr (A, B)"
    using assms(1) by (simp add: assemble_1d_eq)
  define m where "m = nat (N - 2)"
  have m2: "2 \<le> m"
    using assms(1) by (simp add: m_def)
  have sizes: "msize A = m" "msize B = m"
    using assembled_1d(2,3)[OF AB] by (simp_all add: m_def)
  define P where "P k t \<longleftrightarrow>
      map length (storage t) = replicate (nat t_end) m \<and> length (interior_points t) = m"
    for k :: nat and t :: state_1d
  have "length a = nat N"
    using initial_configuration_edges(1)[OF a] assms(1) by simp
  then have len: "length (butlast (tl a)) = m"
    using assms(1) by (simp add: m_def nat_diff_distrib')
  have start: "P 1 \<lparr>arr = a, interior_points = butlast (tl a),
        storage = (replicate (nat t_end) (replicate m 0))[0 := butlast (tl a)], solver_calls = 0\<rparr>"
    using assms(2) len by (simp add: P_def map_update list_update_same_conv)
  have go: "\<exists>t'. body_1d spsolve A B left_bc right_bc t (int k) = Inr t' \<and> P (Suc k) t'"
    if "int k < t_end" "P k t" for k t
  proof -
    have shape: "map length (storage t) = replicate (nat t_end) m"
      and ip: "length (interior_points t) = m"
      using that(2) by (simp_all add: P_def)
    have k: "k < length (storage t)"
      using that(1) shape by (metis length_map length_replicate zless_nat_eq_int_zless)
    have "length (storage t ! k) = map length (storage t) ! k"
      using k by simp
    also have "\<dots> = m"
      using k shape by (metis length_map length_replicate nth_replicate)
    finally have row: "length (storage t ! k) = m" .
    obtain rhs where rhs: "explicit_rhs B left_bc right_bc (interior_points t) = Inr rhs"
      using explicit_rhs_eq[of B "interior_points t" left_bc right_bc] sizes(2) ip m2 by simp
    define x where "x = spsolve A rhs"
    have x: "step_1d spsolve A B left_bc right_bc (interior_points t) = Inr x"
      by (simp add: step_1d_def rhs x_def)
    have lx: "length x = m"
      using step_1d_length[OF x assms(3)] sizes ip by simp
    have "setrow (storage t) (int k) x = Inr ((storage t)[k := x])"
      using k lx row by (intro setrow_eq) simp_all
    then have "body_1d spsolve A B left_bc right_bc t (int k)
        = Inr (t\<lparr>interior_points := x, storage := (storage t)[k := x],
                  solver_calls := Suc (solver_calls t)\<rparr>)"
      by (simp add: body_1d_def x)
    moreover have "map length ((storage t)[k := x]) = map length (storage t)"
      using k lx row by (intro update_keeps_shape) simp_all
    then have "P (Suc k) (t\<lparr>interior_points := x, storage := (storage t)[k := x],
                  solver_calls := Suc (solver_calls t)\<rparr>)"
      using lx shape by (simp add: P_def)
    ultimately show ?thesis
      by simp
  qed
  have "\<exists>s. foldE (body_1d spsolve A B left_bc right_bc)
        \<lparr>arr = a, interior_points = butlast (tl a),
         storage = (replicate (nat t_end) (replicate m 0))[0 := butlast (tl a)],
         solver_calls = 0\<rparr> (range_py 1 t_end) = Inr s \<and> P (max 1 (nat t_end)) s"
    by (rule foldE_range_total[where P = P, OF start]) (rule go)
  then show ?thesis
    using run_1d_loop[OF a AB assms(2), of spsolve] by (auto simp: m_def)
qed

subsection \<open>The two-dimensional run\<close>

lemma run_2d_loop:
  assumes "assemble_A_2d N r = Inr A" and "assemble_M_2d N r = Inr M"
    and "initial_values N mask_cells = Inr v" and "1 \<le> steps"
  shows "run_2d cgs N r mask_cells steps =
     foldE (body_2d cgs A M N)
       \<lparr>values = v, frames = (replicate (nat steps) (replicate (nat (N * N)) 0))[0 := v],
        solver_calls_2d = 0\<rparr>
       (range_py 1 steps)"
proof -
  have N: "0 \<le> N" and len: "int (length v) = N * N"
    using assms(3) by (auto simp: initial_values_def split: if_splits)
  have "setrow (replicate (nat steps) (replicate (nat (N * N)) 0)) (int 0) v
        = Inr ((replicate (nat steps) (replicate (nat (N * N)) 0))[0 := v])"
    using assms(4) len by (intro setrow_eq) simp_all
  then show ?thesis
    using assms N len by (simp add: run_2d_def np_zeros3_def reshape_def)
qed

lemma run_2d_returns:
  assumes "run_2d cgs N r mask_cells steps = Inr s"
  obtains A M where "assemble_A_2d N r = Inr A" and "assemble_M_2d N r = Inr M"
    and "initial_values N mask_cells = Inr (map (\<lambda>m. if m then 10 else 0) mask_cells)"
    and "int (length mask_cells) = N * N" and "2 \<le> N" and "1 \<le> steps"
proof -
  from assms obtain A M v where A: "assemble_A_2d N r = Inr A"
    and M: "assemble_M_2d N r = Inr M" and v: "initial_values N mask_cells = Inr v"
    by (auto simp: run_2d_def bindE_eq_Inr)
  from v have N0: "0 \<le> N" and len: "int (length mask_cells) = N * N"
    and v': "v = map (\<lambda>m. if m then 10 else 0) mask_cells"
    by (auto simp: initial_values_def split: if_splits)
  have N: "2 \<le> N"
  proof (rule ccontr)
    assume "\<not> 2 \<le> N"
    with N0 have "N = 0 \<or> N = 1"
      by linarith
    from assemble_2d_small(1)[OF this, of r] A show False
      by simp
  qed
  have "1 \<le> steps"
  proof (rule ccontr)
    assume "\<not> 1 \<le> steps"
    then have "steps < 0 \<or> steps = 0"
      by linarith
    then have "isl (run_2d cgs N r mask_cells steps)"
      using A M v N0 len
      by (auto simp: run_2d_def np_zeros3_def reshape_def setrow_def getitem_def index_py_def v')
    with assms show False
      by simp
  qed
  with A M v v' len N show ?thesis
    by (intro that[of A M]) simp_all
qed

text \<open>One iteration of the two-dimensional loop: the frame written is the vector the
  solver returned, whatever flag came with it.\<close>

lemma body_2d_Inr:
  assumes "body_2d cgs A M N t (int k) = Inr t'" and "length (frames t ! k) = nat (N * N)"
  obtains b where "matvec M (values t) = Inr b"
    and "k < length (frames t)" and "length (fst (cgs A b)) = nat (N * N)"
    and "t' = t\<lparr>values := fst (cgs A b), frames := (frames t)[k := fst (cgs A b)],
                 solver_calls_2d := Suc (solver_calls_2d t)\<rparr>"
proof -
  from assms(1) obtain b where b: "matvec M (values t) = Inr b"
    and rest: "(case cgs A b of (x, info) \<Rightarrow>
       bindE (reshape N x) (\<lambda>frame. bindE (setrow (frames t) (int k) frame) (\<lambda>fr.
         Inr (t\<lparr>values := x, frames := fr, solver_calls_2d := Suc (solver_calls_2d t)\<rparr>)))) = Inr t'"
    by (auto simp: body_2d_def bindE_eq_Inr)
  define x where "x = fst (cgs A b)"
  from rest obtain fr where shape: "reshape N x = Inr x"
    and fr: "setrow (frames t) (int k) x = Inr fr"
    and t': "t' = t\<lparr>values := x, frames := fr, solver_calls_2d := Suc (solver_calls_2d t)\<rparr>"
    by (auto simp: x_def bindE_eq_Inr reshape_def split: prod.splits if_splits)
  from shape have lx: "length x = nat (N * N)"
    by (auto simp: reshape_def split: if_splits)
  from setrow_Inr[OF fr] lx assms(2) have "k < length (frames t)" "fr = (frames t)[k := x]"
    by auto
  with b lx t' show ?thesis
    unfolding x_def by (intro that[of b]) simp_all
qed

text \<open>
  A two-dimensional run that ends: frame \<open>0\<close> is the initial field, frame \<open>i\<close> is what
  the solver returned for \<open>M\<close> applied to frame \<open>i - 1\<close>, and nothing else is written.
\<close>

lemma run_2d_trajectory:
  assumes "run_2d cgs N r mask_cells steps = Inr s"
    and "assemble_A_2d N r = Inr A" and "assemble_M_2d N r = Inr M"
  shows "map length (frames s) = replicate (nat steps) (nat (N * N))"
    and "frames s ! 0 = map (\<lambda>m. if m then 10 else 0) mask_cells"
    and "values s = frames s ! (nat steps - 1)"
    and "solver_calls_2d s = nat steps - 1"
    and "1 \<le> i \<Longrightarrow> i < nat steps \<Longrightarrow>
           \<exists>b. matvec M (frames s ! (i - 1)) = Inr b \<and> frames s ! i = fst (cgs A b)"
proof -
  define v where "v = map (\<lambda>m. if m then (10::real) else 0) mask_cells"
  define n2 where "n2 = nat (N * N)"
  from assms(1) obtain A' M' where "assemble_A_2d N r = Inr A'"
    and v: "initial_values N mask_cells = Inr v"
    and len: "int (length mask_cells) = N * N" and N: "2 \<le> N" and T: "1 \<le> steps"
    unfolding v_def by (rule run_2d_returns)
  have lv: "length v = n2"
    using len by (simp add: v_def n2_def)
  define P where "P k t \<longleftrightarrow> 1 \<le> k
      \<and> map length (frames t) = replicate (nat steps) n2
      \<and> frames t ! 0 = v \<and> frames t ! (k - 1) = values t \<and> solver_calls_2d t = k - 1
      \<and> (\<forall>i. 1 \<le> i \<and> i < k \<longrightarrow>
            (\<exists>b. matvec M (frames t ! (i - 1)) = Inr b \<and> frames t ! i = fst (cgs A b)))"
    for k and t :: state_2d
  have start: "P 1 \<lparr>values = v, frames = (replicate (nat steps) (replicate n2 0))[0 := v],
        solver_calls_2d = 0\<rparr>"
    using T lv by (simp add: P_def map_update list_update_same_conv)
  have keep: "P (Suc k) t'"
    if "1 \<le> k" "int k < steps" "P k t" "body_2d cgs A M N t (int k) = Inr t'" for k t t'
  proof -
    have shape: "map length (frames t) = replicate (nat steps) n2"
      and first: "frames t ! 0 = v" and prev: "frames t ! (k - 1) = values t"
      and calls: "solver_calls_2d t = k - 1"
      and hist: "\<And>i. 1 \<le> i \<Longrightarrow> i < k \<Longrightarrow>
            \<exists>b. matvec M (frames t ! (i - 1)) = Inr b \<and> frames t ! i = fst (cgs A b)"
      using that(3) by (simp_all add: P_def)
    have klen: "k < length (map length (frames t))"
      using that(2) shape by simp
    have "length (frames t ! k) = map length (frames t) ! k"
      using klen by simp
    also have "\<dots> = n2"
      using klen unfolding shape by simp
    finally have row: "length (frames t ! k) = nat (N * N)"
      by (simp add: n2_def)
    from that(4) row obtain b where b: "matvec M (values t) = Inr b"
      and k: "k < length (frames t)" and lx: "length (fst (cgs A b)) = nat (N * N)"
      and t': "t' = t\<lparr>values := fst (cgs A b), frames := (frames t)[k := fst (cgs A b)],
                 solver_calls_2d := Suc (solver_calls_2d t)\<rparr>"
      by (rule body_2d_Inr)
    define x where "x = fst (cgs A b)"
    have st: "frames t' = (frames t)[k := x]" "values t' = x"
      "solver_calls_2d t' = Suc (solver_calls_2d t)"
      by (simp_all add: t' x_def)
    have "map length ((frames t)[k := x]) = map length (frames t)"
      using k lx row by (intro update_keeps_shape) (simp_all add: x_def)
    then have shape': "map length (frames t') = replicate (nat steps) n2"
      using shape by (simp add: st)
    have first': "frames t' ! 0 = v"
      using first \<open>1 \<le> k\<close> by (simp add: st)
    have prev': "frames t' ! (Suc k - 1) = values t'"
      using k by (simp add: st)
    have calls': "solver_calls_2d t' = Suc k - 1"
      using calls \<open>1 \<le> k\<close> by (simp add: st)
    have hist': "\<exists>b. matvec M (frames t' ! (i - 1)) = Inr b \<and> frames t' ! i = fst (cgs A b)"
      if i: "1 \<le> i" "i < Suc k" for i
    proof (cases "i = k")
      case True
      then have "frames t' ! (i - 1) = values t" and "frames t' ! i = x"
        using k \<open>1 \<le> k\<close> prev by (simp_all add: st)
      with b show ?thesis
        by (intro exI[of _ b]) (simp add: x_def)
    next
      case False
      with i have "i < k"
        by simp
      then have "frames t' ! (i - 1) = frames t ! (i - 1)" and "frames t' ! i = frames t ! i"
        by (simp_all add: st)
      with hist[OF i(1) \<open>i < k\<close>] show ?thesis
        by simp
    qed
    show ?thesis
      unfolding P_def
    proof (intro conjI allI impI)
      show "1 \<le> Suc k"
        by simp
      show "\<exists>b. matvec M (frames t' ! (i - 1)) = Inr b \<and> frames t' ! i = fst (cgs A b)"
        if "1 \<le> i \<and> i < Suc k" for i
        using that by (intro hist') simp_all
    qed (rule shape' first' prev' calls')+
  qed
  have "P (max 1 (nat steps)) s"
  proof (rule foldE_range_invariant[where P = P, OF _ start])
    show "foldE (body_2d cgs A M N)
        \<lparr>values = v, frames = (replicate (nat steps) (replicate n2 0))[0 := v],
         solver_calls_2d = 0\<rparr> (range_py 1 steps) = Inr s"
      using assms(1) run_2d_loop[OF assms(2,3) v T, of cgs] by (simp add: n2_def)
  qed (rule keep)
  moreover have "max 1 (nat steps) = nat steps"
    using T by simp
  ultimately have P: "P (nat steps) s"
    by simp
  then show "map length (frames s) = replicate (nat steps) (nat (N * N))"
    and "frames s ! 0 = map (\<lambda>m. if m then 10 else 0) mask_cells"
    and "values s = frames s ! (nat steps - 1)"
    and "solver_calls_2d s = nat steps - 1"
    by (simp_all add: P_def v_def n2_def)
  show "\<exists>b. matvec M (frames s ! (i - 1)) = Inr b \<and> frames s ! i = fst (cgs A b)"
    if "1 \<le> i" "i < nat steps"
    using P that by (simp add: P_def)
qed

text \<open>With a solver that keeps shapes, on a grid of edge two or more, the run ends.\<close>

lemma run_2d_total:
  assumes "2 \<le> N" and "1 \<le> steps" and "int (length mask_cells) = N * N"
    and "shape_preserving (\<lambda>A b. fst (cgs A b))"
  shows "\<exists>s. run_2d cgs N r mask_cells steps = Inr s"
proof -
  obtain A M where A: "assemble_A_2d N r = Inr A" and M: "assemble_M_2d N r = Inr M"
    using assms(1) by (simp add: assemble_A_2d_eq assemble_M_2d_eq)
  define n2 where "n2 = nat (N * N)"
  have sizes: "msize A = n2" "msize M = n2"
    using assembled_2d(1,2)[OF assms(1)] A M assms(1) by (simp_all add: n2_def nat_mult_distrib)
  define v where "v = map (\<lambda>m. if m then (10::real) else 0) mask_cells"
  have v: "initial_values N mask_cells = Inr v"
    using assms(1,3) by (simp add: initial_values_def v_def)
  have lv: "length v = n2"
    using assms(3) by (simp add: v_def n2_def)
  define P where "P k t \<longleftrightarrow>
      map length (frames t) = replicate (nat steps) n2 \<and> length (values t) = n2"
    for k :: nat and t :: state_2d
  have start: "P 1 \<lparr>values = v, frames = (replicate (nat steps) (replicate n2 0))[0 := v],
        solver_calls_2d = 0\<rparr>"
    using assms(2) lv by (simp add: P_def map_update list_update_same_conv)
  have go: "\<exists>t'. body_2d cgs A M N t (int k) = Inr t' \<and> P (Suc k) t'"
    if "int k < steps" "P k t" for k t
  proof -
    have shape: "map length (frames t) = replicate (nat steps) n2"
      and lval: "length (values t) = n2"
      using that(2) by (simp_all add: P_def)
    have klen: "k < length (map length (frames t))"
      using that(1) shape by simp
    then have k: "k < length (frames t)"
      by simp
    have "length (frames t ! k) = map length (frames t) ! k"
      using k by simp
    also have "\<dots> = n2"
      using klen unfolding shape by simp
    finally have row: "length (frames t ! k) = n2" .
    obtain b where b: "matvec M (values t) = Inr b" and lb: "length b = n2"
      using lval sizes(2) by (simp add: matvec_eq)
    define x where "x = fst (cgs A b)"
    have lx: "length x = n2"
      using assms(4) lb sizes(1) by (simp add: shape_preserving_def x_def)
    have "int (length x) = N * N" and "0 \<le> N"
      using lx assms(1) by (simp_all add: n2_def)
    then have shape_x: "reshape N x = Inr x"
      by (simp add: reshape_def)
    have "setrow (frames t) (int k) x = Inr ((frames t)[k := x])"
      using k lx row by (intro setrow_eq) simp_all
    then have "body_2d cgs A M N t (int k)
        = Inr (t\<lparr>values := x, frames := (frames t)[k := x],
                  solver_calls_2d := Suc (solver_calls_2d t)\<rparr>)"
      using shape_x by (simp add: body_2d_def b x_def case_prod_beta)
    moreover have "map length ((frames t)[k := x]) = map length (frames t)"
      using k lx row by (intro update_keeps_shape) simp_all
    then have "P (Suc k) (t\<lparr>values := x, frames := (frames t)[k := x],
                  solver_calls_2d := Suc (solver_calls_2d t)\<rparr>)"
      using lx shape by (simp add: P_def)
    ultimately show ?thesis
      by simp
  qed
  have "\<exists>s. foldE (body_2d cgs A M N)
        \<lparr>values = v, frames = (replicate (nat steps) (replicate n2 0))[0 := v],
         solver_calls_2d = 0\<rparr> (range_py 1 steps) = Inr s \<and> P (max 1 (nat steps)) s"
    by (rule foldE_range_total[where P = P, OF start]) (rule go)
  then show ?thesis
    using run_2d_loop[OF A M v assms(2), of cgs] by (auto simp: n2_def)
qed

subsection \<open>The solvers named in the concrete runs\<close>

lemma eliminate_length: "length (eliminate rows) = length rows"
  by (induction rows rule: eliminate.induct) (simp_all add: Let_def)

lemma direct_solve_shape: "shape_preserving direct_solve"
  by (simp add: shape_preserving_def direct_solve_def eliminate_length)

lemma exact_flag_shape: "shape_preserving (\<lambda>A b. fst (direct_solve A b, 0::int))"
  using direct_solve_shape by simp

lemma stalled_solver_shape: "shape_preserving (\<lambda>A b. fst (stalled_solver A b))"
  by (simp add: shape_preserving_def stalled_solver_def)

subsection \<open>Trajectories\<close>

lemma shape_rows:
  assumes "map length rows = replicate n m"
  shows "length rows = n" and "\<forall>row \<in> set rows. length row = m"
proof -
  have "length rows = length (map length rows)"
    by simp
  then show "length rows = n"
    unfolding assms by simp
  have "set (map length rows) \<subseteq> {m}"
    unfolding assms by auto
  then show "\<forall>row \<in> set rows. length row = m"
    by auto
qed

text \<open>
  Claim C10. With solvers that keep shapes, every run that ends has called the solver
  \<open>T - 1\<close> times and holds \<open>T\<close> snapshots; snapshot \<open>0\<close> is the initial field (the
  interior of \<open>arr\<close> in one dimension, the whole grid in two), and snapshot \<open>i\<close>, for
  \<open>1 \<le> i \<le> T - 1\<close>, is what the solver returns for the matrix \<open>A\<close> and the right-hand
  side made from snapshot \<open>i - 1\<close>: in one dimension \<open>B\<close> applied to it with the boundary
  terms written into its two ends, in two dimensions \<open>M\<close> applied to it. And runs do end:
  for \<open>T \<ge> 1\<close>, the one-dimensional run on \<open>N \<ge> 4\<close> cells and the two-dimensional run
  on a grid of edge \<open>N \<ge> 2\<close> return.
\<close>

theorem C10_trajectory:
  assumes "shape_preserving spsolve" and "shape_preserving (\<lambda>A b. fst (cgs A b))"
  shows "(run_1d spsolve N left_bc right_bc T = Inr s \<longrightarrow>
      (\<exists>a A B. initial_configuration N left_bc right_bc = Inr a \<and> assemble_1d N = Inr (A, B)
         \<and> solver_calls s = nat T - 1 \<and> length (storage s) = nat T
         \<and> storage s ! 0 = butlast (tl a)
         \<and> (\<forall>i. 1 \<le> i \<and> i < nat T \<longrightarrow>
               (\<exists>rhs. explicit_rhs B left_bc right_bc (storage s ! (i - 1)) = Inr rhs
                  \<and> storage s ! i = spsolve A rhs))))
   \<and> (run_2d cgs N r mask_cells T = Inr s' \<longrightarrow>
      (\<exists>A M. assemble_A_2d N r = Inr A \<and> assemble_M_2d N r = Inr M
         \<and> solver_calls_2d s' = nat T - 1 \<and> length (frames s') = nat T
         \<and> frames s' ! 0 = map (\<lambda>m. if m then 10 else 0) mask_cells
         \<and> length (frames s' ! 0) = nat (N * N)
         \<and> (\<forall>i. 1 \<le> i \<and> i < nat T \<longrightarrow>
               (\<exists>b. matvec M (frames s' ! (i - 1)) = Inr b \<and> frames s' ! i = fst (cgs A b)))))
   \<and> (1 \<le> T \<and> 4 \<le> N \<longrightarrow> (\<exists>s. run_1d spsolve N left_bc right_bc T = Inr s))
   \<and> (1 \<le> T \<and> 2 \<le> N \<and> int (length mask_cells) = N * N \<longrightarrow>
        (\<exists>s. run_2d cgs N r mask_cells T = Inr s))"
proof (intro conjI impI)
  assume s: "run_1d spsolve N left_bc right_bc T = Inr s"
  from s obtain a A B where AB: "assemble_1d N = Inr (A, B)"
    by (rule run_1d_returns)
  note shape = run_1d_shape[OF s]
  have len: "length (storage s) = nat T"
    using shape_rows(1)[OF shape(2)] .
  have steps: "\<forall>i. 1 \<le> i \<and> i < nat T \<longrightarrow>
      (\<exists>rhs. explicit_rhs B left_bc right_bc (storage s ! (i - 1)) = Inr rhs
         \<and> storage s ! i = spsolve A rhs)"
  proof (intro allI impI)
    fix i assume i: "1 \<le> i \<and> i < nat T"
    then have "step_1d spsolve A B left_bc right_bc (storage s ! (i - 1)) = Inr (storage s ! i)"
      using run_1d_trajectory(2)[OF s assms(1) AB, of i] by simp
    then obtain rhs where "explicit_rhs B left_bc right_bc (storage s ! (i - 1)) = Inr rhs"
      and "Inr (spsolve A rhs) = (Inr (storage s ! i) :: error + real list)"
      unfolding step_1d_def bindE_eq_Inr by (elim exE conjE)
    then show "\<exists>rhs. explicit_rhs B left_bc right_bc (storage s ! (i - 1)) = Inr rhs
         \<and> storage s ! i = spsolve A rhs"
      by (intro exI[of _ rhs]) simp
  qed
  show "\<exists>a A B. initial_configuration N left_bc right_bc = Inr a \<and> assemble_1d N = Inr (A, B)
         \<and> solver_calls s = nat T - 1 \<and> length (storage s) = nat T
         \<and> storage s ! 0 = butlast (tl a)
         \<and> (\<forall>i. 1 \<le> i \<and> i < nat T \<longrightarrow>
               (\<exists>rhs. explicit_rhs B left_bc right_bc (storage s ! (i - 1)) = Inr rhs
                  \<and> storage s ! i = spsolve A rhs))"
    using shape(1,3,4) AB len steps
    by (intro exI[of _ "arr s"] exI[of _ A] exI[of _ B]) simp
next
  assume s: "run_2d cgs N r mask_cells T = Inr s'"
  from s obtain A M where A: "assemble_A_2d N r = Inr A" and M: "assemble_M_2d N r = Inr M"
    and mask: "int (length mask_cells) = N * N"
    by (rule run_2d_returns)
  note tr = run_2d_trajectory[OF s A M]
  have len: "length (frames s') = nat T"
    using shape_rows(1)[OF tr(1)] .
  have first: "length (frames s' ! 0) = nat (N * N)"
    using mask by (simp add: tr(2))
  have steps: "\<forall>i. 1 \<le> i \<and> i < nat T \<longrightarrow>
      (\<exists>b. matvec M (frames s' ! (i - 1)) = Inr b \<and> frames s' ! i = fst (cgs A b))"
    using tr(5) by simp
  show "\<exists>A M. assemble_A_2d N r = Inr A \<and> assemble_M_2d N r = Inr M
         \<and> solver_calls_2d s' = nat T - 1 \<and> length (frames s') = nat T
         \<and> frames s' ! 0 = map (\<lambda>m. if m then 10 else 0) mask_cells
         \<and> length (frames s' ! 0) = nat (N * N)
         \<and> (\<forall>i. 1 \<le> i \<and> i < nat T \<longrightarrow>
               (\<exists>b. matvec M (frames s' ! (i - 1)) = Inr b \<and> frames s' ! i = fst (cgs A b)))"
    using A M tr(2,4) len first steps
    by (intro exI[of _ A] exI[of _ M]) simp
next
  assume "1 \<le> T \<and> 4 \<le> N"
  then show "\<exists>s. run_1d spsolve N left_bc right_bc T = Inr s"
    using run_1d_total[OF _ _ assms(1)] by simp
next
  assume "1 \<le> T \<and> 2 \<le> N \<and> int (length mask_cells) = N * N"
  then show "\<exists>s. run_2d cgs N r mask_cells T = Inr s"
    using run_2d_total[OF _ _ _ assms(2)] by simp
qed

theorem C10_trajectory_witness:
  "(\<exists>s. run_1d direct_solve 5 10 10 3 = Inr s \<and> solver_calls s = 2 \<and> length (storage s) = 3
        \<and> storage s ! 0 = [0, 100, 0]
        \<and> storage s ! 1 = [240 / 7, 120 / 7, 240 / 7]
        \<and> storage s ! 2 = [760 / 49, 1220 / 49, 760 / 49])
   \<and> (\<exists>s. run_2d (\<lambda>A b. (direct_solve A b, 0)) 3 (1 / 2)
              [False, False, False, False, True, False, False, False, False] 3 = Inr s
        \<and> solver_calls_2d s = 2 \<and> length (frames s) = 3
        \<and> frames s ! 0 = [0, 0, 0, 0, 10, 0, 0, 0, 0])
   \<and> (\<exists>s. run_2d (\<lambda>A b. (direct_solve A b, 0)) 2 (1 / 2) [False, True, False, False] 3 = Inr s
        \<and> solver_calls_2d s = 2 \<and> length (frames s) = 3
        \<and> frames s ! 0 = [0, 10, 0, 0]
        \<and> frames s ! 1 = [20 / 13, - (230 / 91), 160 / 91, 20 / 13]
        \<and> frames s ! 2 = [- (80 / 169), 11770 / 8281, - (3440 / 8281), - (80 / 169)])"
proof (intro conjI)
  note c = C10_trajectory[OF direct_solve_shape exact_flag_shape, where N = 5 and T = 3
      and left_bc = 10 and right_bc = 10]
  have a: "initial_configuration 5 10 10 = Inr [10, 0, 100, 0, 10]"
    by code_simp
  from c[THEN conjunct2, THEN conjunct2, THEN conjunct1] obtain s
    where s: "run_1d direct_solve 5 10 10 3 = Inr s"
    by auto
  note c1 = C10_trajectory[OF direct_solve_shape exact_flag_shape, where N = 5 and T = 3
      and left_bc = 10 and right_bc = 10 and s = s]
  from c1[THEN conjunct1, THEN mp, OF s] obtain a' A B
    where a': "initial_configuration 5 10 10 = Inr a'" and AB: "assemble_1d 5 = Inr (A, B)"
      and count: "solver_calls s = nat 3 - 1" and len: "length (storage s) = nat 3"
      and first: "storage s ! 0 = butlast (tl a')"
      and steps: "\<forall>i. 1 \<le> i \<and> i < nat 3 \<longrightarrow>
               (\<exists>rhs. explicit_rhs B 10 10 (storage s ! (i - 1)) = Inr rhs
                  \<and> storage s ! i = direct_solve A rhs)"
    by (elim exE conjE)
  have s0: "storage s ! 0 = [0, 100, 0]"
    using first a a' by simp
  have e1: "map_sum id (\<lambda>(A, B). step_1d direct_solve A B 10 10 [0, 100, 0]) (assemble_1d 5)
      = Inr (Inr [240 / 7, 120 / 7, 240 / 7])"
    by code_simp
  have e2: "map_sum id (\<lambda>(A, B). step_1d direct_solve A B 10 10 [240 / 7, 120 / 7, 240 / 7])
      (assemble_1d 5) = Inr (Inr [760 / 49, 1220 / 49, 760 / 49])"
    by code_simp
  from steps[THEN spec, of 1] obtain rhs1
    where "explicit_rhs B 10 10 (storage s ! 0) = Inr rhs1"
      and "storage s ! 1 = direct_solve A rhs1"
    by auto
  then have "step_1d direct_solve A B 10 10 [0, 100, 0] = Inr (storage s ! 1)"
    by (simp add: step_1d_def s0)
  with e1 have s1: "storage s ! 1 = [240 / 7, 120 / 7, 240 / 7]"
    by (simp add: AB)
  from steps[THEN spec, of 2] obtain rhs2
    where "explicit_rhs B 10 10 (storage s ! 1) = Inr rhs2"
      and "storage s ! 2 = direct_solve A rhs2"
    by auto
  then have "step_1d direct_solve A B 10 10 [240 / 7, 120 / 7, 240 / 7] = Inr (storage s ! 2)"
    using s1 by (simp add: step_1d_def)
  with e2 have s2: "storage s ! 2 = [760 / 49, 1220 / 49, 760 / 49]"
    by (simp add: AB)
  show "\<exists>s. run_1d direct_solve 5 10 10 3 = Inr s \<and> solver_calls s = 2
      \<and> length (storage s) = 3 \<and> storage s ! 0 = [0, 100, 0]
      \<and> storage s ! 1 = [240 / 7, 120 / 7, 240 / 7]
      \<and> storage s ! 2 = [760 / 49, 1220 / 49, 760 / 49]"
    using s count len s0 s1 s2 by (intro exI[of _ s]) simp
next
  let ?mask = "[False, False, False, False, True, False, False, False, False]"
  note c = C10_trajectory[OF direct_solve_shape exact_flag_shape, where N = 3 and T = 3
      and r = "1 / 2" and mask_cells = ?mask]
  from c[THEN conjunct2, THEN conjunct2, THEN conjunct2] obtain s
    where s: "run_2d (\<lambda>A b. (direct_solve A b, 0)) 3 (1 / 2) ?mask 3 = Inr s"
    by auto
  note c1 = C10_trajectory[OF direct_solve_shape exact_flag_shape, where N = 3 and T = 3
      and r = "1 / 2" and mask_cells = ?mask and s' = s]
  from c1[THEN conjunct2, THEN conjunct1] s
  have "solver_calls_2d s = 2 \<and> length (frames s) = 3
      \<and> frames s ! 0 = [0, 0, 0, 0, 10, 0, 0, 0, 0]"
    by auto
  with s show "\<exists>s. run_2d (\<lambda>A b. (direct_solve A b, 0)) 3 (1 / 2) ?mask 3 = Inr s
      \<and> solver_calls_2d s = 2 \<and> length (frames s) = 3
      \<and> frames s ! 0 = [0, 0, 0, 0, 10, 0, 0, 0, 0]"
    by (intro exI[of _ s]) simp
next
  let ?mask = "[False, True, False, False]"
  let ?cgs = "\<lambda>A b. (direct_solve A b, 0::int)"
  note c = C10_trajectory[OF direct_solve_shape exact_flag_shape, where N = 2 and T = 3
      and r = "1 / 2" and mask_cells = ?mask]
  from c[THEN conjunct2, THEN conjunct2, THEN conjunct2] obtain s
    where s: "run_2d ?cgs 2 (1 / 2) ?mask 3 = Inr s"
    by auto
  note c1 = C10_trajectory[OF direct_solve_shape exact_flag_shape, where N = 2 and T = 3
      and r = "1 / 2" and mask_cells = ?mask and s' = s]
  from c1[THEN conjunct2, THEN conjunct1, THEN mp, OF s] obtain A M
    where A: "assemble_A_2d 2 (1 / 2) = Inr A" and M: "assemble_M_2d 2 (1 / 2) = Inr M"
      and count: "solver_calls_2d s = nat 3 - 1" and len: "length (frames s) = nat 3"
      and first: "frames s ! 0 = map (\<lambda>m. if m then 10 else 0) ?mask"
      and steps: "\<forall>i. 1 \<le> i \<and> i < nat 3 \<longrightarrow>
               (\<exists>b. matvec M (frames s ! (i - 1)) = Inr b \<and> frames s ! i = fst (?cgs A b))"
    by (elim exE conjE)
  have s0: "frames s ! 0 = [0, 10, 0, 0]"
    using first by simp
  have e1: "map_sum id (\<lambda>A. map_sum id (\<lambda>M. map_sum id (direct_solve A) (matvec M [0, 10, 0, 0]))
        (assemble_M_2d 2 (1 / 2))) (assemble_A_2d 2 (1 / 2))
      = Inr (Inr (Inr [20 / 13, - (230 / 91), 160 / 91, 20 / 13]))"
    by code_simp
  have e2: "map_sum id (\<lambda>A. map_sum id (\<lambda>M. map_sum id (direct_solve A)
          (matvec M [20 / 13, - (230 / 91), 160 / 91, 20 / 13]))
        (assemble_M_2d 2 (1 / 2))) (assemble_A_2d 2 (1 / 2))
      = Inr (Inr (Inr [- (80 / 169), 11770 / 8281, - (3440 / 8281), - (80 / 169)]))"
    by code_simp
  from steps[THEN spec, of 1] obtain b1
    where "matvec M (frames s ! 0) = Inr b1" and "frames s ! 1 = direct_solve A b1"
    by auto
  with e1 have s1: "frames s ! 1 = [20 / 13, - (230 / 91), 160 / 91, 20 / 13]"
    by (simp add: A M s0)
  from steps[THEN spec, of 2] obtain b2
    where "matvec M (frames s ! 1) = Inr b2" and "frames s ! 2 = direct_solve A b2"
    by auto
  with e2 have s2: "frames s ! 2 = [- (80 / 169), 11770 / 8281, - (3440 / 8281), - (80 / 169)]"
    using s1 by (simp add: A M)
  show "\<exists>s. run_2d ?cgs 2 (1 / 2) ?mask 3 = Inr s
        \<and> solver_calls_2d s = 2 \<and> length (frames s) = 3
        \<and> frames s ! 0 = [0, 10, 0, 0]
        \<and> frames s ! 1 = [20 / 13, - (230 / 91), 160 / 91, 20 / 13]
        \<and> frames s ! 2 = [- (80 / 169), 11770 / 8281, - (3440 / 8281), - (80 / 169)]"
    using s count len s0 s1 s2 by (intro exI[of _ s]) simp
qed

subsection \<open>Lengths of the fields\<close>

text \<open>
  Claim C9, as the code has it. In one dimension the full field \<open>arr\<close> has \<open>N\<close> values,
  the loop never writes it, and its two edge cells hold the boundary values; every
  snapshot in \<open>storage\<close> has \<open>N - 2\<close> values, the interior cells only, slot \<open>k\<close> being grid
  cell \<open>k + 1\<close>. In two dimensions the field and every snapshot have \<open>N * N\<close> values.
\<close>

theorem C9_field_lengths:
  "(run_1d spsolve N left_bc right_bc t_end = Inr s \<longrightarrow>
       length (arr s) = nat N \<and> initial_configuration N left_bc right_bc = Inr (arr s)
       \<and> arr s ! 0 = left_bc \<and> last (arr s) = right_bc
       \<and> length (storage s) = nat t_end \<and> (\<forall>row \<in> set (storage s). length row = nat (N - 2))
       \<and> storage s ! 0 = butlast (tl (arr s))
       \<and> (\<forall>k<nat (N - 2). storage s ! 0 ! k = arr s ! (k + 1)))
   \<and> (run_2d cgs N r mask_cells steps = Inr s' \<longrightarrow>
       length (values s') = nat (N * N) \<and> length (frames s') = nat steps
       \<and> (\<forall>f \<in> set (frames s'). length f = nat (N * N)))"
proof (intro conjI impI)
  assume run: "run_1d spsolve N left_bc right_bc t_end = Inr s"
  note shape = run_1d_shape[OF run]
  from run obtain a A B where N: "3 \<le> N"
    by (rule run_1d_returns)
  note edges = initial_configuration_edges[OF shape(1)]
  show "initial_configuration N left_bc right_bc = Inr (arr s)"
    by (rule shape(1))
  show len: "length (arr s) = nat N" and "arr s ! 0 = left_bc" and "last (arr s) = right_bc"
    using edges N by simp_all
  show "length (storage s) = nat t_end" and "\<forall>row \<in> set (storage s). length row = nat (N - 2)"
    using shape_rows[OF shape(2)] by simp_all
  show "storage s ! 0 = butlast (tl (arr s))"
    by (rule shape(3))
  show "\<forall>k<nat (N - 2). storage s ! 0 ! k = arr s ! (k + 1)"
  proof (intro allI impI)
    fix k assume "k < nat (N - 2)"
    then have "k < length (butlast (tl (arr s)))" and "k < length (tl (arr s))"
      using len N by simp_all
    then show "storage s ! 0 ! k = arr s ! (k + 1)"
      by (simp add: shape(3) nth_butlast nth_tl)
  qed
next
  assume run: "run_2d cgs N r mask_cells steps = Inr s'"
  from run obtain A M where A: "assemble_A_2d N r = Inr A" and M: "assemble_M_2d N r = Inr M"
    and T: "1 \<le> steps"
    by (rule run_2d_returns)
  note tr = run_2d_trajectory[OF run A M]
  note rows = shape_rows[OF tr(1)]
  show "length (frames s') = nat steps" and "\<forall>f \<in> set (frames s'). length f = nat (N * N)"
    using rows by simp_all
  have "frames s' ! (nat steps - 1) \<in> set (frames s')"
    using rows(1) T by (intro nth_mem) simp
  then show "length (values s') = nat (N * N)"
    using rows(2) by (simp add: tr(3))
qed

theorem C9_field_lengths_witness:
  "(\<exists>s. run_1d direct_solve 5 10 20 3 = Inr s \<and> length (arr s) = 5 \<and> arr s ! 0 = 10
        \<and> last (arr s) = 20 \<and> length (storage s) = 3 \<and> length (storage s ! 0) = 3)
   \<and> (\<exists>s. run_2d stalled_solver 3 (1 / 2)
              [False, False, False, False, True, False, False, False, False] 2 = Inr s
        \<and> length (values s) = 9 \<and> length (frames s) = 2)"
proof
  from run_1d_total[OF _ _ direct_solve_shape, of 5 3 10 20] obtain s
    where s: "run_1d direct_solve 5 10 20 3 = Inr s"
    by auto
  from C9_field_lengths[where spsolve = direct_solve and N = 5 and left_bc = 10
      and right_bc = 20 and t_end = 3 and s = s] s
  have "length (arr s) = 5 \<and> arr s ! 0 = 10 \<and> last (arr s) = 20 \<and> length (storage s) = 3
      \<and> length (storage s ! 0) = 3"
    by simp
  with s show "\<exists>s. run_1d direct_solve 5 10 20 3 = Inr s \<and> length (arr s) = 5 \<and> arr s ! 0 = 10
        \<and> last (arr s) = 20 \<and> length (storage s) = 3 \<and> length (storage s ! 0) = 3"
    by (intro exI[of _ s]) simp
next
  let ?mask = "[False, False, False, False, True, False, False, False, False]"
  from run_2d_total[OF _ _ _ stalled_solver_shape, of 3 2 ?mask "1 / 2"] obtain s
    where s: "run_2d stalled_solver 3 (1 / 2) ?mask 2 = Inr s"
    by auto
  from C9_field_lengths[where cgs = stalled_solver and N = 3 and r = "1 / 2"
      and mask_cells = ?mask and steps = 2 and s' = s] s
  have "length (values s) = 9 \<and> length (frames s) = 2"
    by simp
  with s show "\<exists>s. run_2d stalled_solver 3 (1 / 2) ?mask 2 = Inr s
        \<and> length (values s) = 9 \<and> length (frames s) = 2"
    by (intro exI[of _ s]) simp
qed

text \<open>
  The claim as stated fails for the one-dimensional trajectory: on \<open>N = 5\<close> cells the
  snapshots have \<open>3\<close> values, not \<open>5\<close>.
\<close>

theorem C9_snapshot_length_counterexample:
  "map_sum id (\<lambda>s. (length (arr s), map length (storage s))) (run_1d direct_solve 5 10 10 2)
     = Inr (5, [3, 3])"
  by code_simp

subsection \<open>Boundary values during a run\<close>

text \<open>
  Claim C2, as the code has it. In one dimension the edge cells of \<open>arr\<close> hold
  \<open>left_bc\<close> and \<open>right_bc\<close> when the run ends as when it started: the loop does not
  write \<open>arr\<close>. In two dimensions the fixed value is written once, into the initial
  field: snapshot \<open>0\<close> holds \<open>10\<close> at every masked position, and every later snapshot is
  the vector the solver returned, with nothing written over it.
\<close>

theorem C2_boundary_values:
  "(run_1d spsolve N left_bc right_bc t_end = Inr s \<longrightarrow>
       initial_configuration N left_bc right_bc = Inr (arr s)
       \<and> arr s ! 0 = left_bc \<and> last (arr s) = right_bc)
   \<and> (run_2d cgs N r mask_cells steps = Inr s' \<longrightarrow>
       (\<forall>k<length mask_cells. mask_cells ! k \<longrightarrow> frames s' ! 0 ! k = 10)
       \<and> (\<forall>i. 1 \<le> i \<and> i < nat steps \<longrightarrow>
             (\<exists>A M b. assemble_A_2d N r = Inr A \<and> assemble_M_2d N r = Inr M
                \<and> matvec M (frames s' ! (i - 1)) = Inr b \<and> frames s' ! i = fst (cgs A b))))"
proof (intro conjI impI allI)
  assume run: "run_1d spsolve N left_bc right_bc t_end = Inr s"
  note shape = run_1d_shape[OF run]
  from run obtain a A B where N: "3 \<le> N"
    by (rule run_1d_returns)
  show "initial_configuration N left_bc right_bc = Inr (arr s)"
    by (rule shape(1))
  show "arr s ! 0 = left_bc" and "last (arr s) = right_bc"
    using initial_configuration_edges(2,3)[OF shape(1)] N by simp_all
next
  fix k
  assume run: "run_2d cgs N r mask_cells steps = Inr s'"
    and k: "k < length mask_cells" "mask_cells ! k"
  from run obtain A M where A: "assemble_A_2d N r = Inr A" and M: "assemble_M_2d N r = Inr M"
    by (rule run_2d_returns)
  show "frames s' ! 0 ! k = 10"
    using k by (simp add: run_2d_trajectory(2)[OF run A M])
next
  fix i
  assume run: "run_2d cgs N r mask_cells steps = Inr s'" and i: "1 \<le> i \<and> i < nat steps"
  from run obtain A M where A: "assemble_A_2d N r = Inr A" and M: "assemble_M_2d N r = Inr M"
    by (rule run_2d_returns)
  from run_2d_trajectory(5)[OF run A M, of i] i obtain b
    where "matvec M (frames s' ! (i - 1)) = Inr b" "frames s' ! i = fst (cgs A b)"
    by auto
  with A M show "\<exists>A M b. assemble_A_2d N r = Inr A \<and> assemble_M_2d N r = Inr M
      \<and> matvec M (frames s' ! (i - 1)) = Inr b \<and> frames s' ! i = fst (cgs A b)"
    by (intro exI[of _ A] exI[of _ M] exI[of _ b]) simp
qed

theorem C2_boundary_values_witness:
  "(\<exists>s. run_1d direct_solve 5 10 20 3 = Inr s \<and> arr s ! 0 = 10 \<and> last (arr s) = 20)
   \<and> (\<exists>s. run_2d stalled_solver 3 (1 / 2)
              [False, False, False, False, True, False, False, False, False] 2 = Inr s
        \<and> frames s ! 0 ! 4 = 10 \<and> frames s ! 1 = [0, 0, 0, 0, 0, 0, 0, 0, 0])"
proof
  from run_1d_total[OF _ _ direct_solve_shape, of 5 3 10 20] obtain s
    where s: "run_1d direct_solve 5 10 20 3 = Inr s"
    by auto
  from C2_boundary_values[where spsolve = direct_solve and N = 5 and left_bc = 10
      and right_bc = 20 and t_end = 3 and s = s] s
  have "arr s ! 0 = 10 \<and> last (arr s) = 20"
    by simp
  with s show "\<exists>s. run_1d direct_solve 5 10 20 3 = Inr s \<and> arr s ! 0 = 10 \<and> last (arr s) = 20"
    by (intro exI[of _ s]) simp
next
  let ?mask = "[False, False, False, False, True, False, False, False, False]"
  from run_2d_total[OF _ _ _ stalled_solver_shape, of 3 2 ?mask "1 / 2"] obtain s
    where s: "run_2d stalled_solver 3 (1 / 2) ?mask 2 = Inr s"
    by auto
  from C2_boundary_values[where cgs = stalled_solver and N = 3 and r = "1 / 2"
      and mask_cells = ?mask and steps = 2 and s' = s] s
  have first: "frames s ! 0 ! 4 = 10"
    and later: "\<forall>i. 1 \<le> i \<and> i < 2 \<longrightarrow>
      (\<exists>A M b. assemble_A_2d 3 (1 / 2) = Inr A \<and> assemble_M_2d 3 (1 / 2) = Inr M
         \<and> matvec M (frames s ! (i - 1)) = Inr b \<and> frames s ! i = fst (stalled_solver A b))"
    by simp_all
  from later obtain M b where "assemble_M_2d 3 (1 / 2) = Inr M" "matvec M (frames s ! 0) = Inr b"
    "frames s ! 1 = replicate (length b) 0"
    by (auto simp: stalled_solver_def)
  moreover from this have "length b = 9"
    using assembled_2d(2)[of 3 "1 / 2" M] by (simp add: matvec_rows)
  ultimately have "frames s ! 1 = [0, 0, 0, 0, 0, 0, 0, 0, 0]"
    by (simp add: eval_nat_numeral)
  with s first show "\<exists>s. run_2d stalled_solver 3 (1 / 2) ?mask 2 = Inr s
        \<and> frames s ! 0 ! 4 = 10 \<and> frames s ! 1 = [0, 0, 0, 0, 0, 0, 0, 0, 0]"
    by (intro exI[of _ s]) simp
qed

text \<open>
  The claim as stated fails in two dimensions. On the \<open>3 \<times> 3\<close> grid with the centre cell
  masked and \<open>r = 1/2\<close>, the system of the first step is \<open>A x = M v\<close> with
  \<open>M v = [0, 5, 0, 5, -10, 5, 0, 5, 0]\<close>. The vector below solves it (first conjunct) and
  no other vector does (second conjunct), so it is what an exact solver returns; the run
  stores it as snapshot \<open>1\<close>, whose centre cell is \<open>-6190/2709\<close>, not \<open>10\<close>.
\<close>

theorem C2_masked_cell_counterexample:
  "map_sum id (\<lambda>A. matvec A [1420 / 2709, 1360 / 903, 240 / 301, 1480 / 903, - (6190 / 2709),
        1480 / 903, 240 / 301, 1360 / 903, 1420 / 2709]) (assemble_A_2d 3 (1 / 2))
     = map_sum id (\<lambda>M. matvec M [0, 0, 0, 0, 10, 0, 0, 0, 0]) (assemble_M_2d 3 (1 / 2))
   \<and> \<not> (\<exists>x. x \<noteq> [1420 / 2709, 1360 / 903, 240 / 301, 1480 / 903, - (6190 / 2709),
                    1480 / 903, 240 / 301, 1360 / 903, 1420 / 2709]
          \<and> map_sum id (\<lambda>A. matvec A x) (assemble_A_2d 3 (1 / 2))
              = map_sum id (\<lambda>M. matvec M [0, 0, 0, 0, 10, 0, 0, 0, 0]) (assemble_M_2d 3 (1 / 2)))
   \<and> map_sum id (\<lambda>s. (frames s ! 0 ! 4, frames s ! 1 ! 4))
       (run_2d (\<lambda>A b. ([1420 / 2709, 1360 / 903, 240 / 301, 1480 / 903, - (6190 / 2709),
                        1480 / 903, 240 / 301, 1360 / 903, 1420 / 2709], 0))
          3 (1 / 2) [False, False, False, False, True, False, False, False, False] 2)
     = Inr (10, - (6190 / 2709))"
proof (intro conjI)
  let ?x = "[1420 / 2709, 1360 / 903, 240 / 301, 1480 / 903, - (6190 / 2709),
        1480 / 903, 240 / 301, 1360 / 903, 1420 / 2709 :: real]"
  let ?rhs = "map_sum id (\<lambda>M. matvec M [0, 0, 0, 0, 10, 0, 0, 0, 0]) (assemble_M_2d 3 (1 / 2))"
  show solves: "map_sum id (\<lambda>A. matvec A ?x) (assemble_A_2d 3 (1 / 2)) = ?rhs"
    by code_simp
  show "\<not> (\<exists>x. x \<noteq> ?x \<and> map_sum id (\<lambda>A. matvec A x) (assemble_A_2d 3 (1 / 2)) = ?rhs)"
  proof
    assume "\<exists>x. x \<noteq> ?x \<and> map_sum id (\<lambda>A. matvec A x) (assemble_A_2d 3 (1 / 2)) = ?rhs"
    then obtain x where x: "x \<noteq> ?x"
      and "map_sum id (\<lambda>A. matvec A x) (assemble_A_2d 3 (1 / 2)) = ?rhs"
      by blast
    with solves have same: "map_sum id (\<lambda>A. matvec A x) (assemble_A_2d 3 (1 / 2))
        = map_sum id (\<lambda>A. matvec A ?x) (assemble_A_2d 3 (1 / 2))"
      by simp
    obtain A where A: "assemble_A_2d 3 (1 / 2) = Inr A"
      by (simp add: assemble_A_2d_eq)
    have size: "msize A = 9"
      using assembled_2d(1)[OF _ A] by simp
    then obtain b where b: "matvec A ?x = Inr b"
      by (simp add: matvec_eq)
    with same A have "matvec A x = Inr b"
      by simp
    with assembled_2d_dominant(2)[OF _ _ A] have "x = ?x"
      using b by (intro dominant_matrix_unique[of A x b ?x]) simp_all
    with x show False
      by simp
  qed
  show "map_sum id (\<lambda>s. (frames s ! 0 ! 4, frames s ! 1 ! 4))
       (run_2d (\<lambda>A b. (?x, 0)) 3 (1 / 2)
          [False, False, False, False, True, False, False, False, False] 2)
     = Inr (10, - (6190 / 2709))"
    by code_simp
qed

subsection \<open>The convergence flag\<close>





end
